theory Spec2Isabelle
  imports Main
begin

section \<open>Exceptions, expressions and descriptors\<close>

text \<open>
  The development embeds \<^verbatim>\<open>app_model/backends/qt/_qaction.py\<close>: the three action classes
  \<^verbatim>\<open>QCommandAction\<close>, \<^verbatim>\<open>QCommandRuleAction\<close> and \<^verbatim>\<open>QMenuItemAction\<close>.
  Python exceptions are values of \<open>exn\<close>; a method that may raise returns
  \<open>(exn + 'a) \<times> state\<close>, where the state component keeps every mutation made before
  the exception was raised (Python does not roll anything back).
\<close>

datatype exn = NameError | RuntimeError | AttributeError | Failure string

type_synonym ctx = "string \<rightharpoonup> bool"

text \<open>
  Modelled from the spec: the expression type \<^verbatim>\<open>app_model.expressions.Expr\<close> is not part of
  the file. The spec describes it as a tagged-variant tree (literal, variable lookup,
  boolean combinators) with \<^verbatim>\<open>eval(ctx) -> bool\<close>, whose evaluation fails on a context
  variable that is missing from \<open>ctx\<close>; the source suppresses exactly \<^verbatim>\<open>NameError\<close> for that
  failure. The combinators short-circuit as Python's \<^verbatim>\<open>and\<close>/\<^verbatim>\<open>or\<close> do.
\<close>

datatype expr =
    Constant bool
  | Name string
  | UnaryNot expr
  | BoolAnd expr expr
  | BoolOr expr expr

fun eval :: "expr \<Rightarrow> ctx \<Rightarrow> exn + bool" where
  "eval (Constant b) ctx = Inr b"
| "eval (Name x) ctx = (case ctx x of None \<Rightarrow> Inl NameError | Some v \<Rightarrow> Inr v)"
| "eval (UnaryNot e) ctx = (case eval e ctx of Inl x \<Rightarrow> Inl x | Inr v \<Rightarrow> Inr (\<not> v))"
| "eval (BoolAnd a b) ctx =
     (case eval a ctx of Inl x \<Rightarrow> Inl x | Inr v \<Rightarrow> if v then eval b ctx else Inr False)"
| "eval (BoolOr a b) ctx =
     (case eval a ctx of Inl x \<Rightarrow> Inl x | Inr v \<Rightarrow> if v then Inr True else eval b ctx)"

text \<open>
  Modelled from the spec: a toggle rule's \<^verbatim>\<open>get_current\<close> is a "current value" provider.
  The provider is represented by the outcome of calling it once it has been wrapped by the
  injection store: it returns a boolean or raises.
\<close>

datatype provider = Provider (call: "exn + bool")

datatype toggle_rule = ToggleRule (condition: "expr option") (get_current: "provider option")

text \<open>\<^verbatim>\<open>CommandRule.toggled : Optional[Union[ToggleRule, Expr]]\<close>\<close>

datatype toggled_t = IsExpr expr | IsToggleRule toggle_rule

text \<open>
  \<^verbatim>\<open>CommandRule\<close> and \<^verbatim>\<open>MenuItem\<close> are declared in \<^verbatim>\<open>app_model.types\<close>; only the fields
  the file reads are kept. \<open>rule_id\<close> is the field \<^verbatim>\<open>id\<close>, \<open>item_when\<close> the field
  \<^verbatim>\<open>when\<close>. \<open>item_hash\<close> is the value of
  \<^verbatim>\<open>hash(menu_item)\<close>, fixed for the immutable descriptor; two different descriptors may
  carry the same hash.
\<close>

record command_rule =
  rule_id :: string
  title :: string
  short_title :: "string option"
  icon :: "string option"
  tooltip :: "string option"
  status_tip :: "string option"
  enablement :: "expr option"
  toggled :: "toggled_t option"

record menu_item =
  command :: command_rule
  item_when :: "expr option"
  item_hash :: int

section \<open>Applications, action objects and the program state\<close>

type_synonym app_id = nat
type_synonym ref = nat
type_synonym key = "app_id \<times> int"

text \<open>
  Modelled from the spec: the application handle. \<open>keybindings\<close> is
  \<^verbatim>\<open>handle.keybindings.get_keybinding(id)\<close> (the registered key sequence, if any);
  \<open>commands\<close> is \<^verbatim>\<open>handle.commands.execute_command(id)\<close>: the call itself may raise,
  otherwise it returns a deferred result whose \<^verbatim>\<open>result()\<close> returns or raises.
\<close>

record application =
  app_name :: string
  keybindings :: "string \<rightharpoonup> string"
  commands :: "string \<Rightarrow> exn + (exn + unit)"

datatype app_arg = AppName string | AppObj app_id

datatype qkeysequence = QKeyBindingSequence string
datatype qicon = QIcon string

definition to_qicon :: "string \<Rightarrow> qicon" where
  "to_qicon i = QIcon i"

text \<open>
  An action object: the toolkit's properties of a \<^verbatim>\<open>QAction\<close> together with the Python
  attributes the three classes store on it. \<open>constructed\<close> records that
  \<^verbatim>\<open>QAction.__init__\<close> has run; \<open>triggered_slots\<close> counts the connections of the
  \<^verbatim>\<open>triggered\<close> signal to \<^verbatim>\<open>_on_triggered\<close>; \<open>destroyed_slots\<close> lists the cache keys
  of the lambdas connected to the object's \<^verbatim>\<open>destroyed\<close> signal. \<open>enabled\<close> and \<open>visible\<close>
  are what \<^verbatim>\<open>isEnabled()\<close> and \<^verbatim>\<open>isVisible()\<close> return; \<open>explicit_enabled\<close> is the value the
  last \<^verbatim>\<open>setEnabled\<close> asked for, which the toolkit keeps apart from \<open>enabled\<close>. An attribute
  that was never assigned is \<open>None\<close>.
\<close>

record qaction =
  constructed :: bool
  parent_of :: "ref option"
  objectName :: string
  shortcut :: "qkeysequence option"
  triggered_slots :: nat
  destroyed_slots :: "key list"
  action_text :: string
  action_icon :: "qicon option"
  toolTip :: "string option"
  statusTip :: "string option"
  checkable :: bool
  checked :: bool
  enabled :: bool
  explicit_enabled :: bool
  visible :: bool
  attr_app :: "app_id option"
  attr_command_id :: "string option"
  attr_cmd_rule :: "command_rule option"
  attr_menu_item :: "menu_item option"
  attr_initialized :: "bool option"

text \<open>Calls made to the external collaborators, in order.\<close>

datatype event =
    ExecuteCommand app_id string
  | FutureResult app_id string
  | Inject app_id
  | GetCurrent

text \<open>
  The program state. \<open>instances\<close> is the registry of named applications, \<open>app_destroyed\<close>
  lists, per application, the cache keys of the lambdas connected to its \<^verbatim>\<open>destroyed\<close>
  signal, \<open>objects\<close> is the heap of action objects (a destroyed object is absent),
  \<open>cache\<close> is the class variable \<^verbatim>\<open>QMenuItemAction._cache\<close>.
\<close>

record state =
  apps :: "app_id \<Rightarrow> application"
  instances :: "string \<rightharpoonup> app_id"
  next_app :: app_id
  app_destroyed :: "app_id \<Rightarrow> key list"
  objects :: "ref \<rightharpoonup> qaction"
  next_ref :: ref
  cache :: "key \<rightharpoonup> ref"
  log :: "event list"

type_synonym 'a res = "(exn + 'a) \<times> state"

text \<open>
  Statements in sequence: an exception ends the sequence and is its outcome. \<open>bind\<close> passes
  the value of the first statement on, \<open>read\<close> evaluates an expression that leaves the state
  as it is, \<open>skip\<close> does nothing.
\<close>

definition seq :: "(state \<Rightarrow> unit res) \<Rightarrow> (state \<Rightarrow> 'a res) \<Rightarrow> state \<Rightarrow> 'a res" where
  "seq m k s = (case m s of (Inl e, s') \<Rightarrow> (Inl e, s') | (Inr _, s') \<Rightarrow> k s')"

definition bind :: "(state \<Rightarrow> 'a res) \<Rightarrow> ('a \<Rightarrow> state \<Rightarrow> 'b res) \<Rightarrow> state \<Rightarrow> 'b res" where
  "bind m k s = (case m s of (Inl e, s') \<Rightarrow> (Inl e, s') | (Inr x, s') \<Rightarrow> k x s')"

definition read :: "(state \<Rightarrow> exn + 'a) \<Rightarrow> state \<Rightarrow> 'a res" where
  "read f s = (f s, s)"

definition skip :: "state \<Rightarrow> unit res" where
  "skip s = (Inr (), s)"

text \<open>\<^verbatim>\<open>with contextlib.suppress(X): body\<close>\<close>

definition suppress :: "exn \<Rightarrow> (state \<Rightarrow> unit res) \<Rightarrow> state \<Rightarrow> unit res" where
  "suppress x m s =
     (case m s of (Inl e, s') \<Rightarrow> if e = x then (Inr (), s') else (Inl e, s') | (Inr u, s') \<Rightarrow> (Inr u, s'))"

text \<open>
  Modelled from the spec: \<^verbatim>\<open>Application.get_or_create\<close>, the idempotent resolution or
  creation of a named singleton handle. A new application has no keybinding and no command.
\<close>

definition new_application :: "string \<Rightarrow> application" where
  "new_application nm =
     \<lparr>app_name = nm, keybindings = Map.empty, commands = (\<lambda>c. Inl (Failure ''KeyError''))\<rparr>"

definition get_or_create :: "string \<Rightarrow> state \<Rightarrow> app_id \<times> state" where
  "get_or_create nm s =
     (case instances s nm of
        Some i \<Rightarrow> (i, s)
      | None \<Rightarrow>
          (next_app s,
           s\<lparr>apps := (apps s)(next_app s := new_application nm),
             instances := (instances s)(nm \<mapsto> next_app s),
             next_app := Suc (next_app s)\<rparr>))"

text \<open>\<^verbatim>\<open>Application.get_or_create(app) if isinstance(app, str) else app\<close>\<close>

definition resolve_app :: "app_arg \<Rightarrow> state \<Rightarrow> app_id \<times> state" where
  "resolve_app app s = (case app of AppName nm \<Rightarrow> get_or_create nm s | AppObj i \<Rightarrow> (i, s))"

subsection \<open>Toolkit primitives\<close>

text \<open>
  A freshly allocated instance (\<^verbatim>\<open>super().__new__(cls)\<close>): no attribute, the toolkit's
  defaults for the properties (enabled and visible, not checkable, not checked), and
  \<^verbatim>\<open>QAction.__init__\<close> not yet run.
\<close>

definition blank :: qaction where
  "blank =
     \<lparr>constructed = False, parent_of = None, objectName = [], shortcut = None,
      triggered_slots = 0, destroyed_slots = [], action_text = [], action_icon = None,
      toolTip = None, statusTip = None, checkable = False, checked = False,
      enabled = True, explicit_enabled = True, visible = True, attr_app = None, attr_command_id = None,
      attr_cmd_rule = None, attr_menu_item = None, attr_initialized = None\<rparr>"

definition alloc :: "state \<Rightarrow> ref \<times> state" where
  "alloc s = (next_ref s, s\<lparr>objects := (objects s)(next_ref s \<mapsto> blank), next_ref := Suc (next_ref s)\<rparr>)"

text \<open>
  A toolkit method (a setter, a \<^verbatim>\<open>connect\<close>) on an object that was destroyed, or whose
  \<^verbatim>\<open>QAction.__init__\<close> never ran, raises \<^verbatim>\<open>RuntimeError\<close>.
\<close>

definition qt_call :: "ref \<Rightarrow> (qaction \<Rightarrow> qaction) \<Rightarrow> state \<Rightarrow> unit res" where
  "qt_call self f s =
     (case objects s self of
        None \<Rightarrow> (Inl RuntimeError, s)
      | Some a \<Rightarrow>
          if constructed a then (Inr (), s\<lparr>objects := (objects s)(self \<mapsto> f a)\<rparr>)
          else (Inl RuntimeError, s))"

text \<open>Assignment of a Python attribute, \<^verbatim>\<open>self._x = v\<close>.\<close>

definition set_attr :: "ref \<Rightarrow> (qaction \<Rightarrow> qaction) \<Rightarrow> state \<Rightarrow> unit res" where
  "set_attr self f s =
     (case objects s self of
        None \<Rightarrow> (Inl RuntimeError, s)
      | Some a \<Rightarrow> (Inr (), s\<lparr>objects := (objects s)(self \<mapsto> f a)\<rparr>))"

text \<open>Reading a Python attribute, \<^verbatim>\<open>self._x\<close>: \<^verbatim>\<open>AttributeError\<close> when it was never assigned.\<close>

definition get_attr :: "ref \<Rightarrow> (qaction \<Rightarrow> 'a option) \<Rightarrow> state \<Rightarrow> exn + 'a" where
  "get_attr self f s =
     (case objects s self of
        None \<Rightarrow> Inl RuntimeError
      | Some a \<Rightarrow> (case f a of None \<Rightarrow> Inl AttributeError | Some v \<Rightarrow> Inr v))"

text \<open>\<^verbatim>\<open>QAction.__init__(parent)\<close>\<close>

definition QAction_init :: "ref \<Rightarrow> ref option \<Rightarrow> state \<Rightarrow> unit res" where
  "QAction_init self parent s =
     (case objects s self of
        None \<Rightarrow> (Inl RuntimeError, s)
      | Some a \<Rightarrow> (Inr (), s\<lparr>objects := (objects s)(self \<mapsto> a\<lparr>constructed := True, parent_of := parent\<rparr>)\<rparr>))"

definition setObjectName :: "ref \<Rightarrow> string \<Rightarrow> state \<Rightarrow> unit res" where
  "setObjectName self v = qt_call self (\<lambda>a. a\<lparr>objectName := v\<rparr>)"

definition setShortcut :: "ref \<Rightarrow> qkeysequence \<Rightarrow> state \<Rightarrow> unit res" where
  "setShortcut self v = qt_call self (\<lambda>a. a\<lparr>shortcut := Some v\<rparr>)"

definition setText :: "ref \<Rightarrow> string \<Rightarrow> state \<Rightarrow> unit res" where
  "setText self v = qt_call self (\<lambda>a. a\<lparr>action_text := v\<rparr>)"

definition setIcon :: "ref \<Rightarrow> qicon \<Rightarrow> state \<Rightarrow> unit res" where
  "setIcon self v = qt_call self (\<lambda>a. a\<lparr>action_icon := Some v\<rparr>)"

definition setToolTip :: "ref \<Rightarrow> string \<Rightarrow> state \<Rightarrow> unit res" where
  "setToolTip self v = qt_call self (\<lambda>a. a\<lparr>toolTip := Some v\<rparr>)"

definition setStatusTip :: "ref \<Rightarrow> string \<Rightarrow> state \<Rightarrow> unit res" where
  "setStatusTip self v = qt_call self (\<lambda>a. a\<lparr>statusTip := Some v\<rparr>)"

definition setCheckable :: "ref \<Rightarrow> bool \<Rightarrow> state \<Rightarrow> unit res" where
  "setCheckable self v = qt_call self (\<lambda>a. a\<lparr>checkable := v\<rparr>)"

text \<open>
  \<^verbatim>\<open>setChecked\<close> is only ever called by the file after \<^verbatim>\<open>setCheckable(True)\<close>, so the
  toolkit's treatment of a check on an action that is not checkable plays no role.
\<close>

definition setChecked :: "ref \<Rightarrow> bool \<Rightarrow> state \<Rightarrow> unit res" where
  "setChecked self v = qt_call self (\<lambda>a. a\<lparr>checked := v\<rparr>)"

text \<open>
  The toolkit couples the two display properties: an action that is hidden is disabled.
  \<^verbatim>\<open>setEnabled(v)\<close> records the request and enables the action only while it is visible (a
  request to enable a hidden action changes \<open>explicit_enabled\<close> and nothing else);
  \<^verbatim>\<open>setVisible(v)\<close> shows or hides the action, disables it when it hides it and gives it the
  requested enabled state back when it shows it. The toolkit also consults the action group
  of an action; the file adds no action to a group.
\<close>

definition with_enabled :: "bool \<Rightarrow> qaction \<Rightarrow> qaction" where
  "with_enabled v a = a\<lparr>explicit_enabled := v, enabled := (v \<and> visible a)\<rparr>"

definition with_visible :: "bool \<Rightarrow> qaction \<Rightarrow> qaction" where
  "with_visible v a = a\<lparr>visible := v, enabled := (v \<and> explicit_enabled a)\<rparr>"

definition setEnabled :: "ref \<Rightarrow> bool \<Rightarrow> state \<Rightarrow> unit res" where
  "setEnabled self v = qt_call self (with_enabled v)"

definition setVisible :: "ref \<Rightarrow> bool \<Rightarrow> state \<Rightarrow> unit res" where
  "setVisible self v = qt_call self (with_visible v)"

text \<open>\<^verbatim>\<open>self.triggered.connect(self._on_triggered)\<close>\<close>

definition connect_triggered :: "ref \<Rightarrow> state \<Rightarrow> unit res" where
  "connect_triggered self = qt_call self (\<lambda>a. a\<lparr>triggered_slots := Suc (triggered_slots a)\<rparr>)"

text \<open>\<^verbatim>\<open>self.destroyed.connect(lambda: QMenuItemAction._cache.pop(key, None))\<close>\<close>

definition connect_destroyed :: "ref \<Rightarrow> key \<Rightarrow> state \<Rightarrow> unit res" where
  "connect_destroyed self k = qt_call self (\<lambda>a. a\<lparr>destroyed_slots := destroyed_slots a @ [k]\<rparr>)"

text \<open>\<^verbatim>\<open>self._app.destroyed.connect(lambda: QMenuItemAction._cache.pop(key, None))\<close>\<close>

definition connect_app_destroyed :: "app_id \<Rightarrow> key \<Rightarrow> state \<Rightarrow> unit res" where
  "connect_app_destroyed i k s =
     (Inr (), s\<lparr>app_destroyed := (app_destroyed s)(i := app_destroyed s i @ [k])\<rparr>)"

text \<open>
  Modelled from the spec: \<^verbatim>\<open>handle.commands.execute_command(id)\<close> and the deferred
  result's \<^verbatim>\<open>result()\<close>; \<^verbatim>\<open>handle.injection_store.inject(callable,
  on_unresolved_required_args="ignore")\<close>, which returns the wrapped provider, and the call
  of the wrapped provider. Each call is recorded in the log.
\<close>

definition execute_command :: "app_id \<Rightarrow> string \<Rightarrow> state \<Rightarrow> (exn + unit) res" where
  "execute_command i c s = (commands (apps s i) c, s\<lparr>log := log s @ [ExecuteCommand i c]\<rparr>)"

definition result :: "app_id \<Rightarrow> string \<Rightarrow> exn + unit \<Rightarrow> state \<Rightarrow> unit res" where
  "result i c future s = (future, s\<lparr>log := log s @ [FutureResult i c]\<rparr>)"

definition inject :: "app_id \<Rightarrow> provider \<Rightarrow> state \<Rightarrow> provider res" where
  "inject i p s = (Inr p, s\<lparr>log := log s @ [Inject i]\<rparr>)"

definition call_provider :: "provider \<Rightarrow> state \<Rightarrow> bool res" where
  "call_provider p s = (call p, s\<lparr>log := log s @ [GetCurrent]\<rparr>)"

section \<open>QCommandAction\<close>

text \<open>\<^verbatim>\<open>QCommandAction.__init__(self, command_id, app, parent)\<close>\<close>

definition QCommandAction_init :: "ref \<Rightarrow> string \<Rightarrow> app_arg \<Rightarrow> ref option \<Rightarrow> state \<Rightarrow> unit res" where
  "QCommandAction_init self command_id app parent =
     seq (QAction_init self parent)
    (\<lambda>s. let (i, s1) = resolve_app app s in
      (seq (set_attr self (\<lambda>a. a\<lparr>attr_app := Some i\<rparr>))
      (seq (set_attr self (\<lambda>a. a\<lparr>attr_command_id := Some command_id\<rparr>))
      (seq (setObjectName self command_id)
      (seq (bind (read (get_attr self attr_app)) (\<lambda>j s2.
              case keybindings (apps s2 j) command_id of
                Some kb \<Rightarrow> setShortcut self (QKeyBindingSequence kb) s2
              | None \<Rightarrow> skip s2))
           (connect_triggered self))))) s1)"

text \<open>\<^verbatim>\<open>QCommandAction._on_triggered(self, checked)\<close>\<close>

definition on_triggered :: "ref \<Rightarrow> bool \<Rightarrow> state \<Rightarrow> unit res" where
  "on_triggered self chk =
     bind (read (get_attr self attr_app)) (\<lambda>i.
     bind (read (get_attr self attr_command_id)) (\<lambda>c.
     bind (execute_command i c) (\<lambda>future.
       result i c future)))"

text \<open>
  A user activation emits \<^verbatim>\<open>triggered(checked)\<close>: every connected slot is called, and an
  exception leaving a slot ends the emission.
\<close>

fun emit_triggered :: "nat \<Rightarrow> ref \<Rightarrow> bool \<Rightarrow> state \<Rightarrow> unit res" where
  "emit_triggered 0 self chk s = (Inr (), s)"
| "emit_triggered (Suc n) self chk s = seq (on_triggered self chk) (emit_triggered n self chk) s"

definition activate :: "ref \<Rightarrow> bool \<Rightarrow> state \<Rightarrow> unit res" where
  "activate self chk s =
     (case objects s self of
        None \<Rightarrow> (Inl RuntimeError, s)
      | Some a \<Rightarrow> emit_triggered (triggered_slots a) self chk s)"

text \<open>The constructor call \<^verbatim>\<open>QCommandAction(command_id, app, parent)\<close>: allocate, then initialise.\<close>

definition QCommandAction :: "string \<Rightarrow> app_arg \<Rightarrow> ref option \<Rightarrow> state \<Rightarrow> ref res" where
  "QCommandAction command_id app parent s =
     (let (self, s1) = alloc s in
      case QCommandAction_init self command_id app parent s1 of
        (Inl e, s2) \<Rightarrow> (Inl e, s2)
      | (Inr _, s2) \<Rightarrow> (Inr self, s2))"

section \<open>QCommandRuleAction\<close>

text \<open>\<^verbatim>\<open>QCommandRuleAction._refresh(self)\<close>\<close>

definition refresh :: "ref \<Rightarrow> state \<Rightarrow> unit res" where
  "refresh self =
     bind (read (get_attr self attr_cmd_rule)) (\<lambda>cr.
       case toggled cr of
         Some (IsToggleRule tr) \<Rightarrow>
           (case get_current tr of
              Some gc \<Rightarrow>
                bind (read (get_attr self attr_app)) (\<lambda>i.
                bind (inject i gc) (\<lambda>current.
                bind (call_provider current) (\<lambda>b.
                  setChecked self b)))
            | None \<Rightarrow> skip)
       | _ \<Rightarrow> skip)"

text \<open>\<^verbatim>\<open>QCommandRuleAction.__init__(self, command_rule, app, parent, *, use_short_title)\<close>\<close>

definition QCommandRuleAction_init ::
  "ref \<Rightarrow> command_rule \<Rightarrow> app_arg \<Rightarrow> ref option \<Rightarrow> bool \<Rightarrow> state \<Rightarrow> unit res" where
  "QCommandRuleAction_init self command_rule app parent use_short_title =
     seq (QCommandAction_init self (rule_id command_rule) app parent)
    (seq (set_attr self (\<lambda>a. a\<lparr>attr_cmd_rule := Some command_rule\<rparr>))
    (seq (case short_title command_rule of
            Some st \<Rightarrow>
              if use_short_title \<and> st \<noteq> [] then setText self st
              else setText self (title command_rule)
          | None \<Rightarrow> setText self (title command_rule))
    (seq (case icon command_rule of
            Some ic \<Rightarrow> setIcon self (to_qicon ic)
          | None \<Rightarrow> skip)
    (seq (case tooltip command_rule of
            Some tt \<Rightarrow> if tt \<noteq> [] then setToolTip self tt else skip
          | None \<Rightarrow> skip)
    (seq (case status_tip command_rule of
            Some st \<Rightarrow> if st \<noteq> [] then setStatusTip self st else skip
          | None \<Rightarrow> skip)
         (case toggled command_rule of
            Some t \<Rightarrow> seq (setCheckable self True) (refresh self)
          | None \<Rightarrow> skip))))))"

text \<open>
  \<^verbatim>\<open>QCommandRuleAction.update_from_context(self, ctx)\<close>. An expression object and a toggle
  rule are always truthy, so the two walrus tests are tests for presence. The argument of
  \<^verbatim>\<open>setEnabled\<close> is evaluated before the call, so a failing evaluation leaves the action
  untouched.
\<close>

definition QCommandRuleAction_update_from_context :: "ref \<Rightarrow> ctx \<Rightarrow> state \<Rightarrow> unit res" where
  "QCommandRuleAction_update_from_context self ctx =
     bind (read (get_attr self attr_cmd_rule)) (\<lambda>cr.
     seq (case enablement cr of
            Some e \<Rightarrow> bind (read (\<lambda>s. eval e ctx)) (\<lambda>b. setEnabled self b)
          | None \<Rightarrow> setEnabled self True)
         (case toggled cr of
            Some (IsExpr e2) \<Rightarrow> bind (read (\<lambda>s. eval e2 ctx)) (\<lambda>b. setChecked self b)
          | Some (IsToggleRule tr) \<Rightarrow>
              (case condition tr of
                 Some e2 \<Rightarrow> bind (read (\<lambda>s. eval e2 ctx)) (\<lambda>b. setChecked self b)
               | None \<Rightarrow> skip)
          | None \<Rightarrow> skip))"

text \<open>The constructor call \<^verbatim>\<open>QCommandRuleAction(command_rule, app, parent, use_short_title=...)\<close>.\<close>

definition QCommandRuleAction ::
  "command_rule \<Rightarrow> app_arg \<Rightarrow> ref option \<Rightarrow> bool \<Rightarrow> state \<Rightarrow> ref res" where
  "QCommandRuleAction command_rule app parent use_short_title s =
     (let (self, s1) = alloc s in
      case QCommandRuleAction_init self command_rule app parent use_short_title s1 of
        (Inl e, s2) \<Rightarrow> (Inl e, s2)
      | (Inr _, s2) \<Rightarrow> (Inr self, s2))"

section \<open>QMenuItemAction\<close>

text \<open>\<^verbatim>\<open>QMenuItemAction.__new__(cls, menu_item, app, parent, *, cache)\<close>\<close>

definition QMenuItemAction_new ::
  "menu_item \<Rightarrow> app_arg \<Rightarrow> ref option \<Rightarrow> bool \<Rightarrow> state \<Rightarrow> ref \<times> state" where
  "QMenuItemAction_new menu_item app parent cache_flag s =
     (let (i, s1) = resolve_app app s;
          k = (i, item_hash menu_item)
      in if cache_flag \<and> cache s1 k \<noteq> None then (the (cache s1 k), s1)
         else
           (let (self, s2) = alloc s1
            in (self, if cache_flag then s2\<lparr>cache := (cache s2)(k \<mapsto> self)\<rparr> else s2)))"

text \<open>
  \<^verbatim>\<open>getattr(self, "_initialized", False)\<close>: the attribute when it was assigned; otherwise
  the toolkit's attribute lookup raises \<^verbatim>\<open>RuntimeError\<close> on a wrapper whose
  \<^verbatim>\<open>QAction.__init__\<close> never ran (or that was destroyed), and the default is returned on a
  constructed one.
\<close>

definition getattr_initialized :: "ref \<Rightarrow> state \<Rightarrow> exn + bool" where
  "getattr_initialized self s =
     (case objects s self of
        None \<Rightarrow> Inl RuntimeError
      | Some a \<Rightarrow>
          (case attr_initialized a of
             Some b \<Rightarrow> Inr b
           | None \<Rightarrow> if constructed a then Inr False else Inl RuntimeError))"

text \<open>\<^verbatim>\<open>QMenuItemAction.update_from_context(self, ctx)\<close>\<close>

definition QMenuItemAction_update_from_context :: "ref \<Rightarrow> ctx \<Rightarrow> state \<Rightarrow> unit res" where
  "QMenuItemAction_update_from_context self ctx =
     seq (QCommandRuleAction_update_from_context self ctx)
    (bind (read (get_attr self attr_menu_item)) (\<lambda>mi.
       case item_when mi of
         Some e \<Rightarrow> bind (read (\<lambda>s. eval e ctx)) (\<lambda>b. setVisible self b)
       | None \<Rightarrow> setVisible self True))"

text \<open>The guarded part of \<^verbatim>\<open>QMenuItemAction.__init__\<close> (the body of \<^verbatim>\<open>if not initialized\<close>).\<close>

definition init_body :: "ref \<Rightarrow> menu_item \<Rightarrow> app_arg \<Rightarrow> ref option \<Rightarrow> state \<Rightarrow> unit res" where
  "init_body self menu_item app parent =
     seq (QCommandRuleAction_init self (command menu_item) app parent False)
    (seq (set_attr self (\<lambda>a. a\<lparr>attr_menu_item := Some menu_item\<rparr>))
    (bind (read (get_attr self attr_app)) (\<lambda>i.
     seq (connect_destroyed self (i, item_hash menu_item))
    (seq (connect_app_destroyed i (i, item_hash menu_item))
         (set_attr self (\<lambda>a. a\<lparr>attr_initialized := Some True\<rparr>))))))"

text \<open>\<^verbatim>\<open>QMenuItemAction.__init__(self, menu_item, app, parent, *, cache)\<close>\<close>

definition QMenuItemAction_init ::
  "ref \<Rightarrow> menu_item \<Rightarrow> app_arg \<Rightarrow> ref option \<Rightarrow> bool \<Rightarrow> state \<Rightarrow> unit res" where
  "QMenuItemAction_init self menu_item app parent cache_flag s =
     (case (case getattr_initialized self s of
              Inl e \<Rightarrow> if e = RuntimeError then Inr False else Inl e
            | Inr b \<Rightarrow> Inr b) of
        Inl e \<Rightarrow> (Inl e, s)
      | Inr initialized \<Rightarrow>
          seq (if \<not> initialized then init_body self menu_item app parent else skip)
              (suppress NameError (QMenuItemAction_update_from_context self Map.empty)) s)"

text \<open>
  The constructor call \<^verbatim>\<open>QMenuItemAction(menu_item, app, parent, cache=...)\<close>: \<^verbatim>\<open>__new__\<close>,
  then \<^verbatim>\<open>__init__\<close> with the same arguments on the instance \<^verbatim>\<open>__new__\<close> returned.
\<close>

definition QMenuItemAction ::
  "menu_item \<Rightarrow> app_arg \<Rightarrow> ref option \<Rightarrow> bool \<Rightarrow> state \<Rightarrow> ref res" where
  "QMenuItemAction menu_item app parent cache_flag s =
     (let (self, s1) = QMenuItemAction_new menu_item app parent cache_flag s in
      case QMenuItemAction_init self menu_item app parent cache_flag s1 of
        (Inl e, s2) \<Rightarrow> (Inl e, s2)
      | (Inr _, s2) \<Rightarrow> (Inr self, s2))"

subsection \<open>Destruction\<close>

text \<open>The body of both destruction hooks: \<^verbatim>\<open>QMenuItemAction._cache.pop(key, None)\<close>.\<close>

definition cache_pop :: "key \<Rightarrow> state \<Rightarrow> state" where
  "cache_pop k s = s\<lparr>cache := (cache s)(k := None)\<rparr>"

text \<open>
  Destroying an action emits its \<^verbatim>\<open>destroyed\<close> signal, which runs the connected hooks in
  order, and the object is gone. Destroying an application emits the application's
  \<^verbatim>\<open>destroyed\<close> signal and removes the application from the registry of named instances.
\<close>

definition destroy_action :: "ref \<Rightarrow> state \<Rightarrow> state" where
  "destroy_action self s =
     (case objects s self of
        None \<Rightarrow> s
      | Some a \<Rightarrow> (fold cache_pop (destroyed_slots a) s)\<lparr>objects := (objects s)(self := None)\<rparr>)"

definition destroy_app :: "app_id \<Rightarrow> state \<Rightarrow> state" where
  "destroy_app i s =
     (fold cache_pop (app_destroyed s i) s)
       \<lparr>instances := (\<lambda>nm. if instances s nm = Some i then None else instances s nm)\<rparr>"

section \<open>Functional summaries used in the proofs\<close>

text \<open>
  The objects the initialisers leave behind and the values the updates compute, as pure
  functions. The lemmas of the next section show that the methods compute exactly these;
  the definitions of this section are not part of the embedding of the source.
\<close>

subsection \<open>Objects after initialisation\<close>

text \<open>
  \<open>put\<close> stores an object in the heap. \<open>command_object\<close> is the object after
  \<^verbatim>\<open>QCommandAction.__init__\<close>, \<open>presented\<close> applies the text, icon, tooltip and status tip
  of a command rule, \<open>rule_object\<close> is the object when \<^verbatim>\<open>_refresh\<close> is reached and
  \<open>rule_final\<close> the object after \<^verbatim>\<open>QCommandRuleAction.__init__\<close>. \<open>refresh_value\<close> is the
  outcome of the provider when \<^verbatim>\<open>_refresh\<close> calls one, \<open>refresh_result\<close> the outcome of
  \<^verbatim>\<open>_refresh\<close> and \<open>refresh_log\<close> the calls it logs. \<open>menu_object\<close> is the object after
  the guarded body of \<^verbatim>\<open>QMenuItemAction.__init__\<close>.
\<close>

definition presented :: "command_rule \<Rightarrow> bool \<Rightarrow> qaction \<Rightarrow> qaction" where
  "presented cr ust a =
     a\<lparr>action_text :=
         (case short_title cr of
            Some st \<Rightarrow> if ust \<and> st \<noteq> [] then st else title cr
          | None \<Rightarrow> title cr),
       action_icon := (case icon cr of Some ic \<Rightarrow> Some (to_qicon ic) | None \<Rightarrow> action_icon a),
       toolTip := (case tooltip cr of Some tt \<Rightarrow> if tt \<noteq> [] then Some tt else toolTip a | None \<Rightarrow> toolTip a),
       statusTip :=
         (case status_tip cr of Some st \<Rightarrow> if st \<noteq> [] then Some st else statusTip a | None \<Rightarrow> statusTip a)\<rparr>"

definition command_object :: "app_id \<Rightarrow> string option \<Rightarrow> string \<Rightarrow> ref option \<Rightarrow> qaction \<Rightarrow> qaction" where
  "command_object i kb cid parent a =
     a\<lparr>constructed := True, parent_of := parent, attr_app := Some i,
       attr_command_id := Some cid, objectName := cid,
       shortcut := (case kb of Some k \<Rightarrow> Some (QKeyBindingSequence k) | None \<Rightarrow> shortcut a),
       triggered_slots := Suc (triggered_slots a)\<rparr>"

definition rule_object ::
  "app_id \<Rightarrow> string option \<Rightarrow> command_rule \<Rightarrow> ref option \<Rightarrow> bool \<Rightarrow> qaction \<Rightarrow> qaction" where
  "rule_object i kb cr parent ust a =
     (presented cr ust ((command_object i kb (rule_id cr) parent a)\<lparr>attr_cmd_rule := Some cr\<rparr>))
       \<lparr>checkable := (if toggled cr = None then checkable a else True)\<rparr>"

definition refresh_value :: "command_rule \<Rightarrow> (exn + bool) option" where
  "refresh_value cr =
     (case toggled cr of
        Some (IsToggleRule tr) \<Rightarrow> (case get_current tr of Some p \<Rightarrow> Some (call p) | None \<Rightarrow> None)
      | _ \<Rightarrow> None)"

definition put :: "ref \<Rightarrow> qaction \<Rightarrow> state \<Rightarrow> state" where
  "put self a s = s\<lparr>objects := (objects s)(self \<mapsto> a)\<rparr>"

definition rule_final ::
  "app_id \<Rightarrow> string option \<Rightarrow> command_rule \<Rightarrow> ref option \<Rightarrow> bool \<Rightarrow> qaction \<Rightarrow> qaction" where
  "rule_final i kb cr parent ust a =
     (case refresh_value cr of
        Some (Inr b) \<Rightarrow> (rule_object i kb cr parent ust a)\<lparr>checked := b\<rparr>
      | _ \<Rightarrow> rule_object i kb cr parent ust a)"

definition refresh_result :: "command_rule \<Rightarrow> exn + unit" where
  "refresh_result cr = (case refresh_value cr of Some (Inl e) \<Rightarrow> Inl e | _ \<Rightarrow> Inr ())"

definition refresh_log :: "command_rule \<Rightarrow> app_id \<Rightarrow> event list" where
  "refresh_log cr i = (case refresh_value cr of None \<Rightarrow> [] | Some v \<Rightarrow> [Inject i, GetCurrent])"

definition menu_object ::
  "app_id \<Rightarrow> string option \<Rightarrow> menu_item \<Rightarrow> ref option \<Rightarrow> qaction \<Rightarrow> qaction" where
  "menu_object i kb mi parent a =
     (rule_final i kb (command mi) parent False a)
       \<lparr>attr_menu_item := Some mi,
        destroyed_slots := destroyed_slots a @ [(i, item_hash mi)],
        attr_initialized := Some True\<rparr>"

subsection \<open>Values and objects of a context update\<close>

text \<open>
  The values of the three expressions against a context (\<open>None\<close> for a toggle that has no
  expression to evaluate), the outcome of \<^verbatim>\<open>update_from_context\<close> in the two classes, and the
  object it leaves: a failing evaluation ends the update, and what was set before stays set.
\<close>

definition enablement_value :: "command_rule \<Rightarrow> ctx \<Rightarrow> exn + bool" where
  "enablement_value cr ctx = (case enablement cr of None \<Rightarrow> Inr True | Some e \<Rightarrow> eval e ctx)"

definition toggled_value :: "command_rule \<Rightarrow> ctx \<Rightarrow> (exn + bool) option" where
  "toggled_value cr ctx =
     (case toggled cr of
        None \<Rightarrow> None
      | Some (IsExpr e) \<Rightarrow> Some (eval e ctx)
      | Some (IsToggleRule tr) \<Rightarrow> (case condition tr of None \<Rightarrow> None | Some e \<Rightarrow> Some (eval e ctx)))"

definition when_value :: "menu_item \<Rightarrow> ctx \<Rightarrow> exn + bool" where
  "when_value mi ctx = (case item_when mi of None \<Rightarrow> Inr True | Some e \<Rightarrow> eval e ctx)"

definition rule_refreshed :: "command_rule \<Rightarrow> ctx \<Rightarrow> qaction \<Rightarrow> qaction" where
  "rule_refreshed cr ctx a =
     (case enablement_value cr ctx of
        Inl e \<Rightarrow> a
      | Inr en \<Rightarrow>
          (case toggled_value cr ctx of
             Some (Inr ch) \<Rightarrow> (with_enabled en a)\<lparr>checked := ch\<rparr>
           | _ \<Rightarrow> with_enabled en a))"

definition rule_outcome :: "command_rule \<Rightarrow> ctx \<Rightarrow> exn + unit" where
  "rule_outcome cr ctx =
     (case enablement_value cr ctx of
        Inl e \<Rightarrow> Inl e
      | Inr en \<Rightarrow> (case toggled_value cr ctx of Some (Inl e) \<Rightarrow> Inl e | _ \<Rightarrow> Inr ()))"

definition menu_refreshed :: "menu_item \<Rightarrow> command_rule \<Rightarrow> ctx \<Rightarrow> qaction \<Rightarrow> qaction" where
  "menu_refreshed mi cr ctx a =
     (case rule_outcome cr ctx of
        Inl e \<Rightarrow> rule_refreshed cr ctx a
      | Inr u \<Rightarrow>
          (case when_value mi ctx of
             Inl e \<Rightarrow> rule_refreshed cr ctx a
           | Inr vis \<Rightarrow> with_visible vis (rule_refreshed cr ctx a)))"

definition menu_outcome :: "menu_item \<Rightarrow> command_rule \<Rightarrow> ctx \<Rightarrow> exn + unit" where
  "menu_outcome mi cr ctx =
     (case rule_outcome cr ctx of
        Inl e \<Rightarrow> Inl e
      | Inr u \<Rightarrow> (case when_value mi ctx of Inl e \<Rightarrow> Inl e | Inr vis \<Rightarrow> Inr ()))"

subsection \<open>Concrete inputs\<close>

text \<open>
  An application whose command \<open>cmd\<close> has a keybinding and fails when its result is
  resolved, a state with this application and nothing else, and descriptors built from an
  enablement expression, a toggle and a \<^verbatim>\<open>when\<close> expression. All the menu items have the
  hash \<open>7\<close>.
\<close>

definition demo_app :: application where
  "demo_app =
     \<lparr>app_name = ''app'',
      keybindings = [''cmd'' \<mapsto> ''Ctrl+K''],
      commands = (\<lambda>c. if c = ''cmd'' then Inr (Inl (Failure ''boom'')) else Inl (Failure ''KeyError''))\<rparr>"

definition initial_state :: state where
  "initial_state =
     \<lparr>apps = (\<lambda>i. demo_app), instances = Map.empty, next_app = 0, app_destroyed = (\<lambda>i. []),
      objects = Map.empty, next_ref = 0, cache = Map.empty, log = []\<rparr>"

definition demo_rule :: "expr option \<Rightarrow> toggled_t option \<Rightarrow> command_rule" where
  "demo_rule en t =
     \<lparr>rule_id = ''cmd'', title = ''Title'', short_title = None, icon = None, tooltip = None,
      status_tip = None, enablement = en, toggled = t\<rparr>"

definition demo_item :: "expr option \<Rightarrow> command_rule \<Rightarrow> menu_item" where
  "demo_item w cr = \<lparr>command = cr, item_when = w, item_hash = 7\<rparr>"

text \<open>A command rule that is never enabled and whose toggle is the context variable \<open>x\<close>.\<close>

definition demo_toggle :: command_rule where
  "demo_toggle = demo_rule (Some (Constant False)) (Some (IsExpr (Name ''x'')))"

text \<open>A menu item that is never shown, for a command whose toggle rule has a provider only.\<close>

definition demo_provider_only :: menu_item where
  "demo_provider_only =
     demo_item (Some (Constant False))
       (demo_rule None (Some (IsToggleRule (ToggleRule None (Some (Provider (Inr True)))))))"

text \<open>A menu item whose toggle provider raises.\<close>

definition demo_failing :: menu_item where
  "demo_failing =
     demo_item None
       (demo_rule None (Some (IsToggleRule (ToggleRule None (Some (Provider (Inl (Failure ''boom''))))))))"

text \<open>A menu item that is never shown, for a command without enablement and without toggle.\<close>

definition demo_never :: menu_item where
  "demo_never = demo_item (Some (Constant False)) (demo_rule None None)"

text \<open>A menu item that is never shown and whose toggle is the context variable \<open>x\<close>.\<close>

definition demo_hidden :: menu_item where
  "demo_hidden = demo_item (Some (Constant False)) (demo_rule None (Some (IsExpr (Name ''x''))))"

subsection \<open>Repeated calls\<close>

text \<open>Repeated context updates of a command-rule action, one per context of the list.\<close>

definition update_many :: "ref \<Rightarrow> ctx list \<Rightarrow> state \<Rightarrow> state" where
  "update_many self ctxs s =
     fold (\<lambda>ctx s'. snd (QCommandRuleAction_update_from_context self ctx s')) ctxs s"

text \<open>
  \<^verbatim>\<open>__init__\<close> invoked again and again on one instance, once per tuple of arguments of the
  list.
\<close>

definition reinit :: "ref \<Rightarrow> (menu_item \<times> app_arg \<times> ref option \<times> bool) list \<Rightarrow> state \<Rightarrow> state" where
  "reinit self calls s =
     fold (\<lambda>(mi, app, parent, cf) s'. snd (QMenuItemAction_init self mi app parent cf s')) calls s"

subsection \<open>Well-formed and reachable states\<close>

text \<open>
  Well-formed states. References held by the cache or the heap were allocated
  (they are below \<open>next_ref\<close>); an instance is cached under one key only; an instance whose
  \<^verbatim>\<open>_initialized\<close> flag is set went through \<^verbatim>\<open>__init__\<close>, so it is constructed and carries its
  command rule and its menu item; and when such an instance is cached under a key, the hooks
  that remove this key are connected to its own \<^verbatim>\<open>destroyed\<close> signal and to the one of the
  key's application. Every operation keeps a state well-formed (lemmas \<open>wf_*\<close>), so every
  reachable state is well-formed (lemma \<open>reachable_well_formed\<close>).
\<close>

definition well_formed :: "state \<Rightarrow> bool" where
  "well_formed s \<longleftrightarrow>
     (\<forall>k r. cache s k = Some r \<longrightarrow> r < next_ref s \<and> (\<forall>k'. cache s k' = Some r \<longrightarrow> k' = k)) \<and>
     (\<forall>r a. objects s r = Some a \<longrightarrow>
        r < next_ref s \<and>
        (attr_initialized a = Some True \<longrightarrow>
           constructed a \<and> attr_cmd_rule a \<noteq> None \<and> attr_menu_item a \<noteq> None)) \<and>
     (\<forall>k r a. cache s k = Some r \<longrightarrow> objects s r = Some a \<longrightarrow> attr_initialized a = Some True \<longrightarrow>
        k \<in> set (destroyed_slots a) \<and> k \<in> set (app_destroyed s (fst k)))"

text \<open>
  The states the program can reach: from any state without action objects and with an empty
  cache, by constructor calls, context updates, activations and destructions, and by
  changes that other code makes to the applications (registering commands and keybindings).
\<close>

inductive reachable :: "state \<Rightarrow> bool" where
  start: "cache s = Map.empty \<Longrightarrow> objects s = Map.empty \<Longrightarrow> reachable s"
| menu_action: "reachable s \<Longrightarrow> reachable (snd (QMenuItemAction mi app parent cf s))"
| rule_action: "reachable s \<Longrightarrow> reachable (snd (QCommandRuleAction cr app parent ust s))"
| command_action: "reachable s \<Longrightarrow> reachable (snd (QCommandAction cid app parent s))"
| menu_update: "reachable s \<Longrightarrow> reachable (snd (QMenuItemAction_update_from_context self ctx s))"
| rule_update: "reachable s \<Longrightarrow> reachable (snd (QCommandRuleAction_update_from_context self ctx s))"
| activation: "reachable s \<Longrightarrow> reachable (snd (activate self chk s))"
| action_destroyed: "reachable s \<Longrightarrow> reachable (destroy_action self s)"
| app_destroyed: "reachable s \<Longrightarrow> reachable (destroy_app i s)"
| registration: "reachable s \<Longrightarrow> reachable (s\<lparr>apps := f\<rparr>)"

section \<open>The methods in closed form\<close>

lemmas prims = seq_def bind_def read_def skip_def qt_call_def set_attr_def get_attr_def
  setObjectName_def setShortcut_def setText_def setIcon_def setToolTip_def setStatusTip_def
  setCheckable_def setChecked_def setEnabled_def setVisible_def connect_triggered_def
  connect_destroyed_def connect_app_destroyed_def

lemma with_enabled_simps [simp]:
  "enabled (with_enabled v a) = (v \<and> visible a)"
  "explicit_enabled (with_enabled v a) = v"
  "visible (with_enabled v a) = visible a"
  "checked (with_enabled v a) = checked a"
  "checkable (with_enabled v a) = checkable a"
  "constructed (with_enabled v a) = constructed a"
  "attr_app (with_enabled v a) = attr_app a"
  "attr_command_id (with_enabled v a) = attr_command_id a"
  "attr_cmd_rule (with_enabled v a) = attr_cmd_rule a"
  "attr_menu_item (with_enabled v a) = attr_menu_item a"
  "attr_initialized (with_enabled v a) = attr_initialized a"
  "destroyed_slots (with_enabled v a) = destroyed_slots a"
  "triggered_slots (with_enabled v a) = triggered_slots a"
  by (simp_all add: with_enabled_def)

lemma with_visible_simps [simp]:
  "enabled (with_visible v a) = (v \<and> explicit_enabled a)"
  "explicit_enabled (with_visible v a) = explicit_enabled a"
  "visible (with_visible v a) = v"
  "checked (with_visible v a) = checked a"
  "checkable (with_visible v a) = checkable a"
  "constructed (with_visible v a) = constructed a"
  "attr_app (with_visible v a) = attr_app a"
  "attr_command_id (with_visible v a) = attr_command_id a"
  "attr_cmd_rule (with_visible v a) = attr_cmd_rule a"
  "attr_menu_item (with_visible v a) = attr_menu_item a"
  "attr_initialized (with_visible v a) = attr_initialized a"
  "destroyed_slots (with_visible v a) = destroyed_slots a"
  "triggered_slots (with_visible v a) = triggered_slots a"
  by (simp_all add: with_visible_def)

lemma resolve_app_frame:
  "resolve_app app s = (i, s1) \<Longrightarrow>
     objects s1 = objects s \<and> cache s1 = cache s \<and> next_ref s1 = next_ref s \<and>
     app_destroyed s1 = app_destroyed s \<and> log s1 = log s"
  by (auto simp: resolve_app_def get_or_create_def split: app_arg.splits option.splits)

lemma resolve_app_idem:
  "resolve_app app s = (i, s1) \<Longrightarrow> resolve_app app s1 = (i, s1)"
  by (auto simp: resolve_app_def get_or_create_def split: app_arg.splits option.splits)

lemma resolve_app_objects_update:
  "resolve_app app (s\<lparr>objects := f\<rparr>) =
     (fst (resolve_app app s), (snd (resolve_app app s))\<lparr>objects := f\<rparr>)"
  by (auto simp: resolve_app_def get_or_create_def split: app_arg.splits option.splits)

lemma QCommandAction_init_Some:
  assumes "objects s self = Some a" "resolve_app app s = (i, s1)"
  shows "QCommandAction_init self cid app parent s =
     (Inr (), s1\<lparr>objects := (objects s)(self \<mapsto>
        a\<lparr>constructed := True, parent_of := parent, attr_app := Some i,
          attr_command_id := Some cid, objectName := cid,
          shortcut := (case keybindings (apps s1 i) cid of
                         Some kb \<Rightarrow> Some (QKeyBindingSequence kb) | None \<Rightarrow> shortcut a),
          triggered_slots := Suc (triggered_slots a)\<rparr>)\<rparr>)"
  using assms resolve_app_frame[OF assms(2)]
  by (auto simp: QCommandAction_init_def QAction_init_def prims resolve_app_objects_update
      split: option.splits)

lemma QCommandAction_init_None:
  "objects s self = None \<Longrightarrow> QCommandAction_init self cid app parent s = (Inl RuntimeError, s)"
  by (simp add: QCommandAction_init_def QAction_init_def prims)

lemma QCommandAction_init_closed:
  assumes "objects s self = Some a" "resolve_app app s = (i, s1)"
  shows "QCommandAction_init self cid app parent s =
     (Inr (), put self (command_object i (keybindings (apps s1 i) cid) cid parent a) s1)"
  unfolding QCommandAction_init_Some[OF assms] command_object_def put_def
  using resolve_app_frame[OF assms(2)] by simp

lemma objects_put [simp]: "objects (put self a s) = (objects s)(self \<mapsto> a)"
  by (simp add: put_def)

lemma put_put [simp]: "put self a (put self b s) = put self a s"
  by (simp add: put_def)

lemma put_same: "objects s self = Some a \<Longrightarrow> put self a s = s"
  by (simp add: put_def fun_upd_idem)

lemma put_fields [simp]:
  "cache (put self a s) = cache s" "next_ref (put self a s) = next_ref s"
  "app_destroyed (put self a s) = app_destroyed s" "apps (put self a s) = apps s"
  "instances (put self a s) = instances s" "next_app (put self a s) = next_app s"
  "log (put self a s) = log s"
  by (simp_all add: put_def)

lemma seq_qt_call:
  "objects s self = Some a \<Longrightarrow> constructed a \<Longrightarrow> seq (qt_call self f) k s = k (put self (f a) s)"
  by (simp add: seq_def qt_call_def put_def)

lemma seq_set_attr:
  "objects s self = Some a \<Longrightarrow> seq (set_attr self f) k s = k (put self (f a) s)"
  by (simp add: seq_def set_attr_def put_def)

lemma seq_skip [simp]: "seq skip k s = k s"
  by (simp add: seq_def skip_def)

lemma setText_step:
  assumes "objects s self = Some a" "constructed a"
  shows "seq (case short_title cr of
            Some st \<Rightarrow>
              if ust \<and> st \<noteq> [] then setText self st
              else setText self (title cr)
          | None \<Rightarrow> setText self (title cr)) k s =
     k (put self (a\<lparr>action_text :=
         (case short_title cr of
            Some st \<Rightarrow> if ust \<and> st \<noteq> [] then st else title cr
          | None \<Rightarrow> title cr)\<rparr>) s)"
  using assms by (simp add: setText_def seq_qt_call split: option.splits)

lemma setIcon_step:
  assumes "objects s self = Some a" "constructed a"
  shows "seq (case icon cr of
            Some ic \<Rightarrow> setIcon self (to_qicon ic)
          | None \<Rightarrow> skip) k s =
     k (put self (a\<lparr>action_icon := (case icon cr of Some ic \<Rightarrow> Some (to_qicon ic) | None \<Rightarrow> action_icon a)\<rparr>) s)"
  using assms by (simp add: setIcon_def seq_qt_call put_same split: option.splits)

lemma setToolTip_step:
  assumes "objects s self = Some a" "constructed a"
  shows "seq (case tooltip cr of
            Some tt \<Rightarrow> if tt \<noteq> [] then setToolTip self tt else skip
          | None \<Rightarrow> skip) k s =
     k (put self (a\<lparr>toolTip := (case tooltip cr of Some tt \<Rightarrow> if tt \<noteq> [] then Some tt else toolTip a | None \<Rightarrow> toolTip a)\<rparr>) s)"
  using assms by (simp add: setToolTip_def seq_qt_call put_same split: option.splits)

lemma setStatusTip_step:
  assumes "objects s self = Some a" "constructed a"
  shows "seq (case status_tip cr of
            Some st \<Rightarrow> if st \<noteq> [] then setStatusTip self st else skip
          | None \<Rightarrow> skip) k s =
     k (put self (a\<lparr>statusTip :=
         (case status_tip cr of Some st \<Rightarrow> if st \<noteq> [] then Some st else statusTip a | None \<Rightarrow> statusTip a)\<rparr>) s)"
  using assms by (simp add: setStatusTip_def seq_qt_call put_same split: option.splits)

lemma presentation_closed:
  assumes "objects s self = Some a" "constructed a"
  shows "(seq (case short_title cr of
            Some st \<Rightarrow>
              if ust \<and> st \<noteq> [] then setText self st
              else setText self (title cr)
          | None \<Rightarrow> setText self (title cr))
    (seq (case icon cr of
            Some ic \<Rightarrow> setIcon self (to_qicon ic)
          | None \<Rightarrow> skip)
    (seq (case tooltip cr of
            Some tt \<Rightarrow> if tt \<noteq> [] then setToolTip self tt else skip
          | None \<Rightarrow> skip)
    (seq (case status_tip cr of
            Some st \<Rightarrow> if st \<noteq> [] then setStatusTip self st else skip
          | None \<Rightarrow> skip) k)))) s = k (put self (presented cr ust a) s)"
  using assms
  by (simp add: setText_step setIcon_step setToolTip_step setStatusTip_step presented_def
      cong: option.case_cong if_cong)

lemma command_object_simps [simp]:
  "constructed (command_object i kb cid p a)"
  "attr_app (command_object i kb cid p a) = Some i"
  "attr_command_id (command_object i kb cid p a) = Some cid"
  "attr_cmd_rule (command_object i kb cid p a) = attr_cmd_rule a"
  "attr_menu_item (command_object i kb cid p a) = attr_menu_item a"
  "attr_initialized (command_object i kb cid p a) = attr_initialized a"
  "destroyed_slots (command_object i kb cid p a) = destroyed_slots a"
  "triggered_slots (command_object i kb cid p a) = Suc (triggered_slots a)"
  "enabled (command_object i kb cid p a) = enabled a"
  "visible (command_object i kb cid p a) = visible a"
  "checked (command_object i kb cid p a) = checked a"
  "checkable (command_object i kb cid p a) = checkable a"
  by (simp_all add: command_object_def)

lemma presented_simps [simp]:
  "constructed (presented cr ust a) = constructed a"
  "attr_app (presented cr ust a) = attr_app a"
  "attr_command_id (presented cr ust a) = attr_command_id a"
  "attr_cmd_rule (presented cr ust a) = attr_cmd_rule a"
  "attr_menu_item (presented cr ust a) = attr_menu_item a"
  "attr_initialized (presented cr ust a) = attr_initialized a"
  "destroyed_slots (presented cr ust a) = destroyed_slots a"
  "triggered_slots (presented cr ust a) = triggered_slots a"
  "enabled (presented cr ust a) = enabled a"
  "visible (presented cr ust a) = visible a"
  "checked (presented cr ust a) = checked a"
  "checkable (presented cr ust a) = checkable a"
  by (simp_all add: presented_def)

lemma rule_object_simps [simp]:
  "constructed (rule_object i kb cr p ust a)"
  "attr_app (rule_object i kb cr p ust a) = Some i"
  "attr_command_id (rule_object i kb cr p ust a) = Some (rule_id cr)"
  "attr_cmd_rule (rule_object i kb cr p ust a) = Some cr"
  "attr_menu_item (rule_object i kb cr p ust a) = attr_menu_item a"
  "attr_initialized (rule_object i kb cr p ust a) = attr_initialized a"
  "destroyed_slots (rule_object i kb cr p ust a) = destroyed_slots a"
  "triggered_slots (rule_object i kb cr p ust a) = Suc (triggered_slots a)"
  "enabled (rule_object i kb cr p ust a) = enabled a"
  "visible (rule_object i kb cr p ust a) = visible a"
  "checked (rule_object i kb cr p ust a) = checked a"
  "checkable (rule_object i kb cr p ust a) = (if toggled cr = None then checkable a else True)"
  by (simp_all add: rule_object_def)

lemma rule_final_simps [simp]:
  "constructed (rule_final i kb cr p ust a)"
  "attr_app (rule_final i kb cr p ust a) = Some i"
  "attr_command_id (rule_final i kb cr p ust a) = Some (rule_id cr)"
  "attr_cmd_rule (rule_final i kb cr p ust a) = Some cr"
  "attr_menu_item (rule_final i kb cr p ust a) = attr_menu_item a"
  "attr_initialized (rule_final i kb cr p ust a) = attr_initialized a"
  "destroyed_slots (rule_final i kb cr p ust a) = destroyed_slots a"
  "triggered_slots (rule_final i kb cr p ust a) = Suc (triggered_slots a)"
  "enabled (rule_final i kb cr p ust a) = enabled a"
  "visible (rule_final i kb cr p ust a) = visible a"
  "checked (rule_final i kb cr p ust a) =
     (case refresh_value cr of Some (Inr b) \<Rightarrow> b | _ \<Rightarrow> checked a)"
  "checkable (rule_final i kb cr p ust a) = (if toggled cr = None then checkable a else True)"
  by (simp_all add: rule_final_def split: option.splits sum.splits)

lemma menu_object_simps [simp]:
  "constructed (menu_object i kb mi p a)"
  "attr_app (menu_object i kb mi p a) = Some i"
  "attr_command_id (menu_object i kb mi p a) = Some (rule_id (command mi))"
  "attr_cmd_rule (menu_object i kb mi p a) = Some (command mi)"
  "attr_menu_item (menu_object i kb mi p a) = Some mi"
  "attr_initialized (menu_object i kb mi p a) = Some True"
  "destroyed_slots (menu_object i kb mi p a) = destroyed_slots a @ [(i, item_hash mi)]"
  "triggered_slots (menu_object i kb mi p a) = Suc (triggered_slots a)"
  "enabled (menu_object i kb mi p a) = enabled a"
  "visible (menu_object i kb mi p a) = visible a"
  "checked (menu_object i kb mi p a) =
     (case refresh_value (command mi) of Some (Inr b) \<Rightarrow> b | _ \<Rightarrow> checked a)"
  "checkable (menu_object i kb mi p a) = (if toggled (command mi) = None then checkable a else True)"
  by (simp_all add: menu_object_def)

lemma refresh_closed:
  assumes "objects s self = Some a" "constructed a" "attr_cmd_rule a = Some cr" "attr_app a = Some i"
  shows "refresh self s =
     (case refresh_value cr of
        None \<Rightarrow> (Inr (), s)
      | Some (Inl e) \<Rightarrow> (Inl e, s\<lparr>log := log s @ [Inject i, GetCurrent]\<rparr>)
      | Some (Inr b) \<Rightarrow> (Inr (), (put self (a\<lparr>checked := b\<rparr>) s)\<lparr>log := log s @ [Inject i, GetCurrent]\<rparr>))"
proof (cases "refresh_value cr")
  case None
  then show ?thesis
    using assms
    by (simp add: refresh_def refresh_value_def bind_def read_def get_attr_def skip_def
        split: option.splits toggled_t.splits)
next
  case (Some v)
  then obtain tr p where t: "toggled cr = Some (IsToggleRule tr)" "get_current tr = Some p" "v = call p"
    by (auto simp: refresh_value_def split: option.splits toggled_t.splits)
  show ?thesis
    using assms t Some
    by (cases "call p")
       (simp_all add: refresh_def bind_def read_def get_attr_def inject_def call_provider_def
          setChecked_def qt_call_def put_def)
qed

lemma toggle_part_closed:
  assumes "objects s self = Some a" "constructed a" "attr_cmd_rule a = Some cr" "attr_app a = Some i"
  shows "(case toggled cr of
            Some t \<Rightarrow> seq (setCheckable self True) (refresh self)
          | None \<Rightarrow> skip) s =
     (case refresh_value cr of
        None \<Rightarrow> (Inr (), put self (a\<lparr>checkable := (if toggled cr = None then checkable a else True)\<rparr>) s)
      | Some (Inl e) \<Rightarrow>
          (Inl e, (put self (a\<lparr>checkable := (if toggled cr = None then checkable a else True)\<rparr>) s)
                    \<lparr>log := log s @ [Inject i, GetCurrent]\<rparr>)
      | Some (Inr b) \<Rightarrow>
          (Inr (), (put self (a\<lparr>checkable := (if toggled cr = None then checkable a else True), checked := b\<rparr>) s)
                     \<lparr>log := log s @ [Inject i, GetCurrent]\<rparr>))"
proof (cases "toggled cr")
  case None
  then show ?thesis
    using assms by (simp add: refresh_value_def skip_def put_same)
next
  case (Some t)
  have "refresh self (put self (a\<lparr>checkable := True\<rparr>) s) =
     (case refresh_value cr of
        None \<Rightarrow> (Inr (), put self (a\<lparr>checkable := True\<rparr>) s)
      | Some (Inl e) \<Rightarrow> (Inl e, (put self (a\<lparr>checkable := True\<rparr>) s)\<lparr>log := log s @ [Inject i, GetCurrent]\<rparr>)
      | Some (Inr b) \<Rightarrow>
          (Inr (), (put self (a\<lparr>checkable := True, checked := b\<rparr>) s)\<lparr>log := log s @ [Inject i, GetCurrent]\<rparr>))"
    using assms
    by (subst refresh_closed[where a = "a\<lparr>checkable := True\<rparr>" and cr = cr and i = i])
       (simp_all split: option.splits sum.splits)
  then show ?thesis
    using assms Some by (simp add: setCheckable_def seq_qt_call)
qed

lemma seq_QCommandAction_init:
  assumes "objects s self = Some a" "resolve_app app s = (i, s1)"
  shows "seq (QCommandAction_init self cid app parent) k s =
     k (put self (command_object i (keybindings (apps s1 i) cid) cid parent a) s1)"
  by (simp add: seq_def QCommandAction_init_closed[OF assms])

lemma QCommandRuleAction_init_closed:
  assumes "objects s self = Some a" "resolve_app app s = (i, s1)"
  shows "QCommandRuleAction_init self cr app parent ust s =
     (refresh_result cr,
      (put self (rule_final i (keybindings (apps s1 i) (rule_id cr)) cr parent ust a) s1)
        \<lparr>log := log s @ refresh_log cr i\<rparr>)"
proof -
  have fr: "objects s1 = objects s" "log s1 = log s" using resolve_app_frame[OF assms(2)] by simp_all
  show ?thesis
    unfolding QCommandRuleAction_init_def
    by (simp add: seq_QCommandAction_init[OF assms] seq_set_attr presentation_closed
        toggle_part_closed[where i = i] fr rule_final_def rule_object_def refresh_result_def
        refresh_log_def split: option.splits sum.splits)
qed

lemma eval_NameError: "eval e ctx = Inl x \<Longrightarrow> x = NameError"
  by (induction e arbitrary: x) (auto split: option.splits sum.splits if_splits)

lemma rule_update_closed:
  assumes "objects s self = Some a" "constructed a" "attr_cmd_rule a = Some cr"
  shows "QCommandRuleAction_update_from_context self ctx s =
     (rule_outcome cr ctx, put self (rule_refreshed cr ctx a) s)"
proof (cases "enablement_value cr ctx")
  case (Inl e)
  then show ?thesis
    using assms
    by (auto simp: QCommandRuleAction_update_from_context_def bind_def read_def get_attr_def
        seq_def enablement_value_def rule_outcome_def rule_refreshed_def put_same
        split: option.splits)
next
  case (Inr en)
  have 1: "seq (case enablement cr of
            Some e \<Rightarrow> bind (read (\<lambda>s. eval e ctx)) (\<lambda>b. setEnabled self b)
          | None \<Rightarrow> setEnabled self True) k s = k (put self (with_enabled en a) s)" for k :: "state \<Rightarrow> unit res"
    using assms Inr
    by (auto simp: enablement_value_def bind_def read_def setEnabled_def seq_def qt_call_def put_def
        split: option.splits)
  show ?thesis
  proof (cases "toggled_value cr ctx")
    case None
    then show ?thesis
      using assms Inr
      by (auto simp: QCommandRuleAction_update_from_context_def bind_def read_def get_attr_def 1
          skip_def toggled_value_def rule_outcome_def rule_refreshed_def
          split: option.splits toggled_t.splits)
  next
    case (Some v)
    then show ?thesis
      using assms Inr
      by (cases v)
         (auto simp: QCommandRuleAction_update_from_context_def bind_def read_def get_attr_def 1
          skip_def toggled_value_def rule_outcome_def rule_refreshed_def setChecked_def qt_call_def
          put_def
          split: option.splits toggled_t.splits)
  qed
qed

lemma rule_refreshed_simps [simp]:
  "constructed (rule_refreshed cr ctx a) = constructed a"
  "attr_app (rule_refreshed cr ctx a) = attr_app a"
  "attr_command_id (rule_refreshed cr ctx a) = attr_command_id a"
  "attr_cmd_rule (rule_refreshed cr ctx a) = attr_cmd_rule a"
  "attr_menu_item (rule_refreshed cr ctx a) = attr_menu_item a"
  "attr_initialized (rule_refreshed cr ctx a) = attr_initialized a"
  "destroyed_slots (rule_refreshed cr ctx a) = destroyed_slots a"
  "triggered_slots (rule_refreshed cr ctx a) = triggered_slots a"
  "visible (rule_refreshed cr ctx a) = visible a"
  "checkable (rule_refreshed cr ctx a) = checkable a"
  by (simp_all add: rule_refreshed_def split: option.splits sum.splits)

lemma menu_refreshed_simps [simp]:
  "constructed (menu_refreshed mi cr ctx a) = constructed a"
  "attr_app (menu_refreshed mi cr ctx a) = attr_app a"
  "attr_command_id (menu_refreshed mi cr ctx a) = attr_command_id a"
  "attr_cmd_rule (menu_refreshed mi cr ctx a) = attr_cmd_rule a"
  "attr_menu_item (menu_refreshed mi cr ctx a) = attr_menu_item a"
  "attr_initialized (menu_refreshed mi cr ctx a) = attr_initialized a"
  "destroyed_slots (menu_refreshed mi cr ctx a) = destroyed_slots a"
  "triggered_slots (menu_refreshed mi cr ctx a) = triggered_slots a"
  "checkable (menu_refreshed mi cr ctx a) = checkable a"
  by (simp_all add: menu_refreshed_def split: option.splits sum.splits)

lemma menu_update_closed:
  assumes "objects s self = Some a" "constructed a" "attr_cmd_rule a = Some cr"
    "attr_menu_item a = Some mi"
  shows "QMenuItemAction_update_from_context self ctx s =
     (menu_outcome mi cr ctx, put self (menu_refreshed mi cr ctx a) s)"
proof (cases "rule_outcome cr ctx")
  case (Inl e)
  then show ?thesis
    unfolding QMenuItemAction_update_from_context_def
    by (simp add: seq_def rule_update_closed[OF assms(1,2,3)] menu_outcome_def menu_refreshed_def)
next
  case (Inr u)
  then show ?thesis
    unfolding QMenuItemAction_update_from_context_def
    using assms
    by (cases "when_value mi ctx")
       (auto simp: seq_def rule_update_closed[OF assms(1,2,3)] menu_outcome_def menu_refreshed_def
          bind_def read_def get_attr_def when_value_def setVisible_def qt_call_def put_def
          split: option.splits)
qed

lemma menu_outcome_NameError: "menu_outcome mi cr ctx = Inl e \<Longrightarrow> e = NameError"
  by (auto simp: menu_outcome_def rule_outcome_def enablement_value_def toggled_value_def
      when_value_def dest: eval_NameError split: option.splits sum.splits toggled_t.splits)

lemma suppressed_update_closed:
  assumes "objects s self = Some a" "constructed a" "attr_cmd_rule a = Some cr"
    "attr_menu_item a = Some mi"
  shows "suppress NameError (QMenuItemAction_update_from_context self ctx) s =
     (Inr (), put self (menu_refreshed mi cr ctx a) s)"
  using menu_outcome_NameError[of mi cr ctx]
  by (cases "menu_outcome mi cr ctx") (auto simp: suppress_def menu_update_closed[OF assms])

lemma resolve_app_stable:
  assumes "resolve_app app s = (i, s1)" "instances s' = instances s1"
  shows "resolve_app app s' = (i, s')"
  using assms
  by (auto simp: resolve_app_def get_or_create_def split: app_arg.splits option.splits)

lemma QCommandRuleAction_init_None:
  "objects s self = None \<Longrightarrow>
     QCommandRuleAction_init self cr app parent ust s = (Inl RuntimeError, s)"
  by (simp add: QCommandRuleAction_init_def seq_def QCommandAction_init_None)

lemma init_body_None:
  "objects s self = None \<Longrightarrow> init_body self mi app parent s = (Inl RuntimeError, s)"
  by (simp add: init_body_def seq_def QCommandRuleAction_init_None)

lemma init_body_closed:
  assumes "objects s self = Some a" "resolve_app app s = (i, s1)"
  shows "init_body self mi app parent s =
     (case refresh_result (command mi) of
        Inl e \<Rightarrow>
          (Inl e,
           (put self (rule_final i (keybindings (apps s1 i) (rule_id (command mi))) (command mi) parent False a) s1)
             \<lparr>log := log s @ refresh_log (command mi) i\<rparr>)
      | Inr u \<Rightarrow>
          (Inr (),
           (put self (menu_object i (keybindings (apps s1 i) (rule_id (command mi))) mi parent a) s1)
             \<lparr>app_destroyed := (app_destroyed s)(i := app_destroyed s i @ [(i, item_hash mi)]),
              log := log s @ refresh_log (command mi) i\<rparr>))"
proof -
  have fr: "app_destroyed s1 = app_destroyed s" using resolve_app_frame[OF assms(2)] by simp
  show ?thesis
  proof (cases "refresh_result (command mi)")
    case (Inl e)
    then show ?thesis
      by (simp add: init_body_def seq_def QCommandRuleAction_init_closed[OF assms])
  next
    case (Inr u)
    then show ?thesis
      by (simp add: init_body_def seq_def QCommandRuleAction_init_closed[OF assms]
          set_attr_def bind_def read_def get_attr_def connect_destroyed_def qt_call_def
          connect_app_destroyed_def menu_object_def put_def fr)
  qed
qed

lemma QMenuItemAction_init_None:
  "objects s self = None \<Longrightarrow>
     QMenuItemAction_init self mi app parent cf s = (Inl RuntimeError, s)"
  by (simp add: QMenuItemAction_init_def getattr_initialized_def seq_def init_body_None)

lemma QMenuItemAction_init_initialized:
  assumes "objects s self = Some a" "attr_initialized a = Some True"
  shows "QMenuItemAction_init self mi app parent cf s =
     suppress NameError (QMenuItemAction_update_from_context self Map.empty) s"
  using assms by (simp add: QMenuItemAction_init_def getattr_initialized_def)

lemma QMenuItemAction_init_uninitialized:
  assumes "objects s self = Some a" "attr_initialized a \<noteq> Some True"
  shows "QMenuItemAction_init self mi app parent cf s =
     seq (init_body self mi app parent)
       (suppress NameError (QMenuItemAction_update_from_context self Map.empty)) s"
  using assms
  by (auto simp: QMenuItemAction_init_def getattr_initialized_def split: option.splits)

lemma QMenuItemAction_init_closed:
  assumes "objects s self = Some a" "attr_initialized a \<noteq> Some True" "resolve_app app s = (i, s1)"
  shows "QMenuItemAction_init self mi app parent cf s =
     (case refresh_result (command mi) of
        Inl e \<Rightarrow>
          (Inl e,
           (put self (rule_final i (keybindings (apps s1 i) (rule_id (command mi))) (command mi) parent False a) s1)
             \<lparr>log := log s @ refresh_log (command mi) i\<rparr>)
      | Inr u \<Rightarrow>
          (Inr (),
           (put self
              (menu_refreshed mi (command mi) Map.empty
                 (menu_object i (keybindings (apps s1 i) (rule_id (command mi))) mi parent a)) s1)
             \<lparr>app_destroyed := (app_destroyed s)(i := app_destroyed s i @ [(i, item_hash mi)]),
              log := log s @ refresh_log (command mi) i\<rparr>))"
proof (cases "refresh_result (command mi)")
  case (Inl e)
  then show ?thesis
    by (simp add: QMenuItemAction_init_uninitialized[OF assms(1,2)] seq_def
        init_body_closed[OF assms(1,3)])
next
  case (Inr u)
  let ?m = "menu_object i (keybindings (apps s1 i) (rule_id (command mi))) mi parent a"
  let ?s2 = "(put self ?m s1)
             \<lparr>app_destroyed := (app_destroyed s)(i := app_destroyed s i @ [(i, item_hash mi)]),
              log := log s @ refresh_log (command mi) i\<rparr>"
  have "suppress NameError (QMenuItemAction_update_from_context self Map.empty) ?s2 =
     (Inr (), put self (menu_refreshed mi (command mi) Map.empty ?m) ?s2)"
    by (rule suppressed_update_closed) simp_all
  then show ?thesis
    using Inr
    by (simp add: QMenuItemAction_init_uninitialized[OF assms(1,2)] seq_def
        init_body_closed[OF assms(1,3)] put_def)
qed

lemma rule_update_unconstructed:
  assumes "objects s self = Some a" "\<not> constructed a \<or> attr_cmd_rule a = None"
  shows "snd (QCommandRuleAction_update_from_context self ctx s) = s"
  using assms
  by (auto simp: QCommandRuleAction_update_from_context_def bind_def read_def get_attr_def
      seq_def setEnabled_def qt_call_def split: option.splits sum.splits)

lemma rule_update_missing:
  "objects s self = None \<Longrightarrow> QCommandRuleAction_update_from_context self ctx s = (Inl RuntimeError, s)"
  by (simp add: QCommandRuleAction_update_from_context_def bind_def read_def get_attr_def)

lemma rule_refreshed_shape:
  "\<exists>ex en ch. rule_refreshed cr ctx a = a\<lparr>explicit_enabled := ex, enabled := en, checked := ch\<rparr>"
proof (cases "enablement_value cr ctx")
  case (Inl e)
  then have "rule_refreshed cr ctx a =
      a\<lparr>explicit_enabled := explicit_enabled a, enabled := enabled a, checked := checked a\<rparr>"
    by (simp add: rule_refreshed_def)
  then show ?thesis by blast
next
  case (Inr en)
  show ?thesis
  proof (cases "toggled_value cr ctx")
    case None
    then have "rule_refreshed cr ctx a =
        a\<lparr>explicit_enabled := en, enabled := en \<and> visible a, checked := checked a\<rparr>"
      using Inr by (simp add: rule_refreshed_def with_enabled_def)
    then show ?thesis by blast
  next
    case (Some v)
    then show ?thesis
    proof (cases v)
      case (Inl e)
      then have "rule_refreshed cr ctx a =
          a\<lparr>explicit_enabled := en, enabled := en \<and> visible a, checked := checked a\<rparr>"
        using Inr Some by (simp add: rule_refreshed_def with_enabled_def)
      then show ?thesis by blast
    next
      case (Inr ch)
      then have "rule_refreshed cr ctx a =
          a\<lparr>explicit_enabled := en, enabled := en \<and> visible a, checked := ch\<rparr>"
        using \<open>enablement_value cr ctx = Inr en\<close> Some by (simp add: rule_refreshed_def with_enabled_def)
      then show ?thesis by blast
    qed
  qed
qed

lemma menu_refreshed_shape:
  "\<exists>ex en ch vis. menu_refreshed mi cr ctx a =
     a\<lparr>explicit_enabled := ex, enabled := en, checked := ch, visible := vis\<rparr>"
proof -
  obtain ex en ch where r: "rule_refreshed cr ctx a = a\<lparr>explicit_enabled := ex, enabled := en, checked := ch\<rparr>"
    using rule_refreshed_shape by blast
  have 1: "a\<lparr>explicit_enabled := ex, enabled := en, checked := ch\<rparr> =
      a\<lparr>explicit_enabled := ex, enabled := en, checked := ch, visible := visible a\<rparr>"
    by simp
  have 2: "with_visible vis (a\<lparr>explicit_enabled := ex, enabled := en, checked := ch\<rparr>) =
      a\<lparr>explicit_enabled := ex, enabled := vis \<and> ex, checked := ch, visible := vis\<rparr>" for vis
    by (simp add: with_visible_def)
  show ?thesis
  proof (cases "rule_outcome cr ctx")
    case (Inl e)
    then have "menu_refreshed mi cr ctx a =
        a\<lparr>explicit_enabled := ex, enabled := en, checked := ch, visible := visible a\<rparr>"
      using 1 by (simp add: menu_refreshed_def r)
    then show ?thesis by blast
  next
    case (Inr u)
    show ?thesis
    proof (cases "when_value mi ctx")
      case (Inl e)
      then have "menu_refreshed mi cr ctx a =
          a\<lparr>explicit_enabled := ex, enabled := en, checked := ch, visible := visible a\<rparr>"
        using 1 Inr by (simp add: menu_refreshed_def r)
      then show ?thesis by blast
    next
      case vis: (Inr vis)
      then have "menu_refreshed mi cr ctx a =
          a\<lparr>explicit_enabled := ex, enabled := vis \<and> ex, checked := ch, visible := vis\<rparr>"
        using 2 Inr by (simp add: menu_refreshed_def r)
      then show ?thesis by blast
    qed
  qed
qed

lemma rule_update_frame:
  assumes "objects s self = Some a"
  shows "\<exists>ex en ch. snd (QCommandRuleAction_update_from_context self ctx s) =
           put self (a\<lparr>explicit_enabled := ex, enabled := en, checked := ch\<rparr>) s"
proof (cases "constructed a \<and> attr_cmd_rule a \<noteq> None")
  case True
  then obtain cr where cr: "attr_cmd_rule a = Some cr" and c: "constructed a" by auto
  obtain ex en ch where r: "rule_refreshed cr ctx a = a\<lparr>explicit_enabled := ex, enabled := en, checked := ch\<rparr>"
    using rule_refreshed_shape by blast
  have "snd (QCommandRuleAction_update_from_context self ctx s) =
      put self (a\<lparr>explicit_enabled := ex, enabled := en, checked := ch\<rparr>) s"
    by (simp add: rule_update_closed[OF assms c cr] r)
  then show ?thesis by blast
next
  case False
  then have "snd (QCommandRuleAction_update_from_context self ctx s) = s"
    using rule_update_unconstructed[OF assms] by blast
  moreover have "put self (a\<lparr>explicit_enabled := explicit_enabled a, enabled := enabled a,
      checked := checked a\<rparr>) s = s"
    using assms by (simp add: put_same)
  ultimately have "snd (QCommandRuleAction_update_from_context self ctx s) =
      put self (a\<lparr>explicit_enabled := explicit_enabled a, enabled := enabled a, checked := checked a\<rparr>) s"
    by simp
  then show ?thesis by blast
qed

lemma visible_part_frame:
  assumes "objects s self = Some a"
  shows "\<exists>en vis. snd (bind (read (get_attr self attr_menu_item)) (\<lambda>mi.
       case item_when mi of
         Some e \<Rightarrow> bind (read (\<lambda>s. eval e ctx)) (\<lambda>b. setVisible self b)
       | None \<Rightarrow> setVisible self True) s) = put self (a\<lparr>enabled := en, visible := vis\<rparr>) s"
proof -
  let ?m = "bind (read (get_attr self attr_menu_item)) (\<lambda>mi.
       case item_when mi of
         Some e \<Rightarrow> bind (read (\<lambda>s. eval e ctx)) (\<lambda>b. setVisible self b)
       | None \<Rightarrow> setVisible self True)"
  have "snd (?m s) = s \<or> (\<exists>vis. snd (?m s) = put self (with_visible vis a) s)"
    using assms
    by (auto simp: bind_def read_def get_attr_def setVisible_def qt_call_def put_def
        split: option.splits sum.splits)
  moreover have "put self (a\<lparr>enabled := enabled a, visible := visible a\<rparr>) s = s"
    using assms by (simp add: put_same)
  moreover have "with_visible vis a = a\<lparr>enabled := vis \<and> explicit_enabled a, visible := vis\<rparr>" for vis
    by (simp add: with_visible_def)
  ultimately show ?thesis by metis
qed

lemma menu_update_frame:
  assumes "objects s self = Some a"
  shows "\<exists>ex en ch vis. snd (QMenuItemAction_update_from_context self ctx s) =
           put self (a\<lparr>explicit_enabled := ex, enabled := en, checked := ch, visible := vis\<rparr>) s"
proof -
  obtain ex en ch where r: "snd (QCommandRuleAction_update_from_context self ctx s) =
           put self (a\<lparr>explicit_enabled := ex, enabled := en, checked := ch\<rparr>) s"
    using rule_update_frame[OF assms] by blast
  let ?a1 = "a\<lparr>explicit_enabled := ex, enabled := en, checked := ch\<rparr>"
  let ?s1 = "put self ?a1 s"
  let ?m = "bind (read (get_attr self attr_menu_item)) (\<lambda>mi.
       case item_when mi of
         Some e \<Rightarrow> bind (read (\<lambda>s. eval e ctx)) (\<lambda>b. setVisible self b)
       | None \<Rightarrow> setVisible self True)"
  obtain res where res: "QCommandRuleAction_update_from_context self ctx s = (res, ?s1)"
    using r by (metis prod.collapse)
  show ?thesis
  proof (cases res)
    case (Inl e)
    then have "snd (QMenuItemAction_update_from_context self ctx s) = ?s1"
      by (simp add: QMenuItemAction_update_from_context_def seq_def res)
    then have "snd (QMenuItemAction_update_from_context self ctx s) =
       put self (a\<lparr>explicit_enabled := ex, enabled := en, checked := ch, visible := visible a\<rparr>) s"
      by simp
    then show ?thesis by blast
  next
    case (Inr u)
    have o1: "objects ?s1 self = Some ?a1" by simp
    obtain en' vis where v: "snd (?m ?s1) = put self (?a1\<lparr>enabled := en', visible := vis\<rparr>) ?s1"
      using visible_part_frame[OF o1] by blast
    have eq: "?a1\<lparr>enabled := en', visible := vis\<rparr> =
        a\<lparr>explicit_enabled := ex, enabled := en', checked := ch, visible := vis\<rparr>"
      by (cases a) simp
    have "snd (QMenuItemAction_update_from_context self ctx s) =
       put self (a\<lparr>explicit_enabled := ex, enabled := en', checked := ch, visible := vis\<rparr>) s"
      using Inr v unfolding eq by (simp add: QMenuItemAction_update_from_context_def seq_def res)
    then show ?thesis by blast
  qed
qed

lemma snd_suppress [simp]: "snd (suppress x m s) = snd (m s)"
  by (simp add: suppress_def split: prod.splits sum.splits)

lemma update_log [simp]:
  "log (snd (QCommandRuleAction_update_from_context self ctx s)) = log s"
proof (cases "objects s self")
  case None
  then show ?thesis by (simp add: rule_update_missing)
next
  case (Some a)
  then show ?thesis using rule_update_frame[OF Some, of ctx] by auto
qed

lemma menu_update_missing:
  "objects s self = None \<Longrightarrow> QMenuItemAction_update_from_context self ctx s = (Inl RuntimeError, s)"
  by (simp add: QMenuItemAction_update_from_context_def seq_def rule_update_missing)

lemma menu_update_log [simp]:
  "log (snd (QMenuItemAction_update_from_context self ctx s)) = log s"
proof (cases "objects s self")
  case None
  then show ?thesis by (simp add: menu_update_missing)
next
  case (Some a)
  then show ?thesis using menu_update_frame[OF Some, of ctx] by auto
qed

lemma resolve_app_simps [simp]:
  "objects (snd (resolve_app app s)) = objects s"
  "cache (snd (resolve_app app s)) = cache s"
  "next_ref (snd (resolve_app app s)) = next_ref s"
  "app_destroyed (snd (resolve_app app s)) = app_destroyed s"
  "log (snd (resolve_app app s)) = log s"
  using resolve_app_frame[of app s "fst (resolve_app app s)" "snd (resolve_app app s)"]
  by simp_all

lemma blank_simps [simp]:
  "constructed blank = False" "triggered_slots blank = 0" "destroyed_slots blank = []"
  "attr_initialized blank = None" "attr_menu_item blank = None" "attr_cmd_rule blank = None"
  "enabled blank" "visible blank" "checked blank = False" "checkable blank = False"
  by (simp_all add: blank_def)

lemma resolve_app_alloc:
  "resolve_app app (snd (alloc s)) =
     (fst (resolve_app app s),
      (snd (resolve_app app s))\<lparr>objects := (objects s)(next_ref s \<mapsto> blank), next_ref := Suc (next_ref s)\<rparr>)"
  by (auto simp: resolve_app_def get_or_create_def alloc_def split: app_arg.splits option.splits)

lemma alloc_simps [simp]:
  "fst (alloc s) = next_ref s"
  "objects (snd (alloc s)) = (objects s)(next_ref s \<mapsto> blank)"
  "log (snd (alloc s)) = log s"
  by (simp_all add: alloc_def)

lemma on_triggered_closed:
  assumes "objects s self = Some a" "attr_app a = Some i" "attr_command_id a = Some c"
  shows "on_triggered self chk s =
     (case commands (apps s i) c of
        Inl e \<Rightarrow> (Inl e, s\<lparr>log := log s @ [ExecuteCommand i c]\<rparr>)
      | Inr future \<Rightarrow> (future, s\<lparr>log := log s @ [ExecuteCommand i c, FutureResult i c]\<rparr>))"
  using assms
  by (simp add: on_triggered_def bind_def read_def get_attr_def execute_command_def result_def
      split: sum.splits)

lemma QCommandAction_closed:
  "QCommandAction cid app parent s =
     (Inr (next_ref s),
      put (next_ref s)
        (command_object (fst (resolve_app app s))
           (keybindings (apps (snd (resolve_app app s)) (fst (resolve_app app s))) cid) cid parent blank)
        ((snd (resolve_app app s))\<lparr>next_ref := Suc (next_ref s)\<rparr>))"
proof -
  have o: "objects (snd (alloc s)) (next_ref s) = Some blank" by simp
  have r: "resolve_app app (snd (alloc s)) =
     (fst (resolve_app app s),
      (snd (resolve_app app s))\<lparr>objects := (objects s)(next_ref s \<mapsto> blank), next_ref := Suc (next_ref s)\<rparr>)"
    by (rule resolve_app_alloc)
  show ?thesis
    by (simp add: QCommandAction_def split_beta QCommandAction_init_closed[OF o r] put_def)
qed

section \<open>The claims\<close>

text \<open>
  Claim C6. For every \<^verbatim>\<open>QCommandAction\<close> built by the constructor, a user activation calls
  the command-execution service exactly once, with the bound application and the bound
  command id; when the call returns a deferred result, the result is forced at once, and the
  outcome of the activation handler is the outcome of that resolution: an exception it raises
  leaves the handler as it is. The activation changes nothing but the log of calls, so every
  further activation behaves in the same way.
\<close>

theorem QCommandAction_activation_executes_once:
  "\<exists>s1. QCommandAction command_id app parent s = (Inr (next_ref s), s1) \<and>
      apps s1 = apps (snd (resolve_app app s)) \<and> log s1 = log s \<and>
      activate (next_ref s) chk s1 =
        (case commands (apps s1 (fst (resolve_app app s))) command_id of
           Inl e \<Rightarrow> (Inl e, s1\<lparr>log := log s1 @ [ExecuteCommand (fst (resolve_app app s)) command_id]\<rparr>)
         | Inr future \<Rightarrow>
             (future,
              s1\<lparr>log := log s1 @ [ExecuteCommand (fst (resolve_app app s)) command_id,
                                   FutureResult (fst (resolve_app app s)) command_id]\<rparr>))"
proof -
  let ?i = "fst (resolve_app app s)"
  let ?sA = "snd (resolve_app app s)"
  let ?a = "command_object ?i (keybindings (apps ?sA ?i) command_id) command_id parent blank"
  let ?s1 = "put (next_ref s) ?a (?sA\<lparr>next_ref := Suc (next_ref s)\<rparr>)"
  have c: "QCommandAction command_id app parent s = (Inr (next_ref s), ?s1)"
    by (rule QCommandAction_closed)
  have l: "log ?sA = log s" using resolve_app_frame[of app s ?i ?sA] by simp
  have o: "objects ?s1 (next_ref s) = Some ?a" by simp
  have "activate (next_ref s) chk ?s1 = on_triggered (next_ref s) chk ?s1"
    by (simp add: activate_def seq_def split: prod.splits sum.splits)
  also have "\<dots> = (case commands (apps ?s1 ?i) command_id of
           Inl e \<Rightarrow> (Inl e, ?s1\<lparr>log := log ?s1 @ [ExecuteCommand ?i command_id]\<rparr>)
         | Inr future \<Rightarrow>
             (future, ?s1\<lparr>log := log ?s1 @ [ExecuteCommand ?i command_id, FutureResult ?i command_id]\<rparr>))"
    by (rule on_triggered_closed[OF o]) simp_all
  finally show ?thesis using c l by (intro exI[of _ ?s1]) simp
qed

theorem QCommandAction_activation_witness:
  "fst (activate 0 True (snd (QCommandAction ''cmd'' (AppObj 0) None initial_state))) = Inl (Failure ''boom'') \<and>
   log (snd (activate 0 True (snd (QCommandAction ''cmd'' (AppObj 0) None initial_state)))) =
     [ExecuteCommand 0 ''cmd'', FutureResult 0 ''cmd'']"
  using QCommandAction_activation_executes_once[of "''cmd''" "AppObj 0" None initial_state True]
  by (auto simp: resolve_app_def initial_state_def demo_app_def)

lemma QCommandRuleAction_closed:
  "QCommandRuleAction cr app parent ust s =
     ((case refresh_result cr of Inl e \<Rightarrow> Inl e | Inr u \<Rightarrow> Inr (next_ref s)),
      (put (next_ref s)
         (rule_final (fst (resolve_app app s))
            (keybindings (apps (snd (resolve_app app s)) (fst (resolve_app app s))) (rule_id cr))
            cr parent ust blank)
         ((snd (resolve_app app s))\<lparr>next_ref := Suc (next_ref s)\<rparr>))
       \<lparr>log := log s @ refresh_log cr (fst (resolve_app app s))\<rparr>)"
proof -
  have o: "objects (snd (alloc s)) (next_ref s) = Some blank" by simp
  have r: "resolve_app app (snd (alloc s)) =
     (fst (resolve_app app s),
      (snd (resolve_app app s))\<lparr>objects := (objects s)(next_ref s \<mapsto> blank), next_ref := Suc (next_ref s)\<rparr>)"
    by (rule resolve_app_alloc)
  show ?thesis
    by (cases "refresh_result cr")
       (simp_all add: QCommandRuleAction_def split_beta QCommandRuleAction_init_closed[OF o r] put_def)
qed

lemma update_many_log: "log (update_many self ctxs s) = log s"
  by (induction ctxs arbitrary: s) (simp_all add: update_many_def)

lemma refresh_value_provider:
  "toggled cr = Some (IsToggleRule (ToggleRule cond (Some (Provider v)))) \<Longrightarrow>
     refresh_value cr = Some v"
  by (simp add: refresh_value_def)

text \<open>
  Claim C8. When \<^verbatim>\<open>toggled\<close> is a \<^verbatim>\<open>ToggleRule\<close> that carries a \<^verbatim>\<open>get_current\<close> provider
  and the provider returns the boolean \<open>b\<close>, constructing a \<^verbatim>\<open>QCommandRuleAction\<close> succeeds,
  leaves the action checkable and checked exactly when \<open>b\<close> holds, and calls the provider once,
  through the injection store: the log grows by one injection and one call. No later
  \<^verbatim>\<open>update_from_context\<close>, however many follow, calls the provider again.
\<close>

theorem provider_sets_initial_checked_once:
  assumes "toggled cr = Some (IsToggleRule (ToggleRule cond (Some (Provider (Inr b)))))"
  shows "\<exists>s1 a1. QCommandRuleAction cr app parent ust s = (Inr (next_ref s), s1) \<and>
      objects s1 (next_ref s) = Some a1 \<and> checkable a1 \<and> checked a1 = b \<and>
      log s1 = log s @ [Inject (fst (resolve_app app s)), GetCurrent] \<and>
      (\<forall>ctxs. log (update_many (next_ref s) ctxs s1) = log s1)"
proof -
  have v: "refresh_value cr = Some (Inr b)" using assms by (rule refresh_value_provider)
  show ?thesis
    using assms
    by (simp add: QCommandRuleAction_closed refresh_result_def refresh_log_def v update_many_log)
qed

theorem provider_sets_initial_checked_witness:
  "fst (QCommandRuleAction
          (demo_rule None (Some (IsToggleRule (ToggleRule None (Some (Provider (Inr True)))))))
          (AppObj 0) None False initial_state) = Inr 0 \<and>
   map_option checked (objects (snd (QCommandRuleAction
          (demo_rule None (Some (IsToggleRule (ToggleRule None (Some (Provider (Inr True)))))))
          (AppObj 0) None False initial_state)) 0) = Some True \<and>
   log (snd (QCommandRuleAction
          (demo_rule None (Some (IsToggleRule (ToggleRule None (Some (Provider (Inr True)))))))
          (AppObj 0) None False initial_state)) = [Inject 0, GetCurrent]"
  using provider_sets_initial_checked_once[of
      "demo_rule None (Some (IsToggleRule (ToggleRule None (Some (Provider (Inr True))))))"
      None True "AppObj 0" None False initial_state]
  by (auto simp: demo_rule_def initial_state_def resolve_app_def)

lemma rule_update_provider_only:
  assumes "objects s self = Some a" "attr_cmd_rule a = Some cr"
    "toggled cr = Some (IsToggleRule (ToggleRule None gc))"
  shows "\<exists>ex en. snd (QCommandRuleAction_update_from_context self ctx s) =
           put self (a\<lparr>explicit_enabled := ex, enabled := en\<rparr>) s"
proof -
  have same: "put self (a\<lparr>explicit_enabled := explicit_enabled a, enabled := enabled a\<rparr>) s = s"
    using assms(1) by (simp add: put_same)
  have tv: "toggled_value cr ctx = None" using assms(3) by (simp add: toggled_value_def)
  show ?thesis
  proof (cases "constructed a")
    case False
    then have "snd (QCommandRuleAction_update_from_context self ctx s) = s"
      using rule_update_unconstructed[OF assms(1)] by blast
    then show ?thesis using same by metis
  next
    case True
    show ?thesis
    proof (cases "enablement_value cr ctx")
      case (Inl e)
      then have "snd (QCommandRuleAction_update_from_context self ctx s) = s"
        using assms(1) by (simp add: rule_update_closed[OF assms(1) True assms(2)] rule_refreshed_def put_same)
      then show ?thesis using same by metis
    next
      case (Inr en)
      then have "snd (QCommandRuleAction_update_from_context self ctx s) =
          put self (a\<lparr>explicit_enabled := en, enabled := en \<and> visible a\<rparr>) s"
        by (simp add: rule_update_closed[OF assms(1) True assms(2)] rule_refreshed_def tv
            with_enabled_def)
      then show ?thesis by blast
    qed
  qed
qed

lemma menu_update_provider_only:
  assumes "objects s self = Some a" "attr_cmd_rule a = Some cr"
    "toggled cr = Some (IsToggleRule (ToggleRule None gc))"
  shows "\<exists>ex en vis. snd (QMenuItemAction_update_from_context self ctx s) =
           put self (a\<lparr>explicit_enabled := ex, enabled := en, visible := vis\<rparr>) s"
proof -
  obtain ex en where r: "snd (QCommandRuleAction_update_from_context self ctx s) =
      put self (a\<lparr>explicit_enabled := ex, enabled := en\<rparr>) s"
    using rule_update_provider_only[OF assms] by blast
  let ?a1 = "a\<lparr>explicit_enabled := ex, enabled := en\<rparr>"
  let ?s1 = "put self ?a1 s"
  let ?m = "bind (read (get_attr self attr_menu_item)) (\<lambda>mi.
       case item_when mi of
         Some e \<Rightarrow> bind (read (\<lambda>s. eval e ctx)) (\<lambda>b. setVisible self b)
       | None \<Rightarrow> setVisible self True)"
  obtain res where res: "QCommandRuleAction_update_from_context self ctx s = (res, ?s1)"
    using r by (metis prod.collapse)
  show ?thesis
  proof (cases res)
    case (Inl e)
    then have "snd (QMenuItemAction_update_from_context self ctx s) = ?s1"
      by (simp add: QMenuItemAction_update_from_context_def seq_def res)
    then have "snd (QMenuItemAction_update_from_context self ctx s) =
       put self (a\<lparr>explicit_enabled := ex, enabled := en, visible := visible a\<rparr>) s"
      by simp
    then show ?thesis by blast
  next
    case (Inr u)
    have o1: "objects ?s1 self = Some ?a1" by simp
    obtain en' vis where "snd (?m ?s1) = put self (?a1\<lparr>enabled := en', visible := vis\<rparr>) ?s1"
      using visible_part_frame[OF o1] by blast
    then have "snd (QMenuItemAction_update_from_context self ctx s) =
       put self (a\<lparr>explicit_enabled := ex, enabled := en', visible := vis\<rparr>) s"
      using Inr by (simp add: QMenuItemAction_update_from_context_def seq_def res)
    then show ?thesis by blast
  qed
qed

text \<open>
  Claim C9. When the command rule's \<^verbatim>\<open>toggled\<close> is a \<^verbatim>\<open>ToggleRule\<close> without a condition
  (a provider-only toggle rule), \<^verbatim>\<open>QCommandRuleAction.update_from_context\<close> changes at most
  the enabled state of the action (the \<open>enabled\<close> property and the request the toolkit
  records for it), and \<^verbatim>\<open>QMenuItemAction.update_from_context\<close> at most the enabled state
  and \<open>visible\<close>: the checked state, every other property of the action and the rest of
  the program state stay as they were, whether the call returns or raises.
\<close>

theorem provider_only_toggle_keeps_checked:
  assumes "objects s self = Some a" and "attr_cmd_rule a = Some cr"
    and "toggled cr = Some (IsToggleRule (ToggleRule None gc))"
  shows "(\<exists>ex en. snd (QCommandRuleAction_update_from_context self ctx s) =
            s\<lparr>objects := (objects s)(self \<mapsto> a\<lparr>explicit_enabled := ex, enabled := en\<rparr>)\<rparr>) \<and>
         (\<exists>ex en vis. snd (QMenuItemAction_update_from_context self ctx s) =
            s\<lparr>objects := (objects s)(self \<mapsto>
                 a\<lparr>explicit_enabled := ex, enabled := en, visible := vis\<rparr>)\<rparr>)"
  using rule_update_provider_only[OF assms, of ctx] menu_update_provider_only[OF assms, of ctx]
  by (simp add: put_def)

lemma QMenuItemAction_new_miss:
  assumes "resolve_app app s = (i, sA)" "\<not> cf \<or> cache s (i, item_hash mi) = None"
  shows "QMenuItemAction_new mi app parent cf s =
     (next_ref s,
      sA\<lparr>objects := (objects s)(next_ref s \<mapsto> blank), next_ref := Suc (next_ref s),
         cache := (if cf then (cache s)((i, item_hash mi) \<mapsto> next_ref s) else cache s)\<rparr>)"
  using assms resolve_app_frame[OF assms(1)]
  by (auto simp: QMenuItemAction_new_def alloc_def)

lemma QMenuItemAction_new_hit:
  assumes "resolve_app app s = (i, sA)" "cache s (i, item_hash mi) = Some r"
  shows "QMenuItemAction_new mi app parent True s = (r, sA)"
  using assms resolve_app_frame[OF assms(1)]
  by (auto simp: QMenuItemAction_new_def)

lemma QMenuItemAction_miss:
  assumes "resolve_app app s = (i, sA)" "\<not> cf \<or> cache s (i, item_hash mi) = None"
  shows "QMenuItemAction mi app parent cf s =
     (case refresh_result (command mi) of
        Inl e \<Rightarrow>
          (Inl e,
           sA\<lparr>objects := (objects s)(next_ref s \<mapsto>
                  rule_final i (keybindings (apps sA i) (rule_id (command mi))) (command mi) parent False blank),
              next_ref := Suc (next_ref s),
              cache := (if cf then (cache s)((i, item_hash mi) \<mapsto> next_ref s) else cache s),
              log := log s @ refresh_log (command mi) i\<rparr>)
      | Inr u \<Rightarrow>
          (Inr (next_ref s),
           sA\<lparr>objects := (objects s)(next_ref s \<mapsto>
                  menu_refreshed mi (command mi) Map.empty
                    (menu_object i (keybindings (apps sA i) (rule_id (command mi))) mi parent blank)),
              next_ref := Suc (next_ref s),
              cache := (if cf then (cache s)((i, item_hash mi) \<mapsto> next_ref s) else cache s),
              app_destroyed := (app_destroyed s)(i := app_destroyed s i @ [(i, item_hash mi)]),
              log := log s @ refresh_log (command mi) i\<rparr>))"
proof -
  let ?sN = "sA\<lparr>objects := (objects s)(next_ref s \<mapsto> blank), next_ref := Suc (next_ref s),
         cache := (if cf then (cache s)((i, item_hash mi) \<mapsto> next_ref s) else cache s)\<rparr>"
  have n: "QMenuItemAction_new mi app parent cf s = (next_ref s, ?sN)"
    by (rule QMenuItemAction_new_miss[OF assms])
  have o: "objects ?sN (next_ref s) = Some blank" by simp
  have u: "attr_initialized blank \<noteq> Some True" by simp
  have r: "resolve_app app ?sN = (i, ?sN)"
    by (rule resolve_app_stable[OF assms(1)]) simp
  have fr: "app_destroyed sA = app_destroyed s" "log sA = log s"
    using resolve_app_frame[OF assms(1)] by simp_all
  show ?thesis
    by (cases "refresh_result (command mi)")
       (simp_all add: QMenuItemAction_def n QMenuItemAction_init_closed[OF o u r] put_def fr)
qed

lemma QMenuItemAction_hit_uninitialized:
  assumes "resolve_app app s = (i, sA)" "cache s (i, item_hash mi) = Some r"
    "objects s r = Some a" "attr_initialized a \<noteq> Some True"
  shows "QMenuItemAction mi app parent True s =
     (case refresh_result (command mi) of
        Inl e \<Rightarrow>
          (Inl e,
           sA\<lparr>objects := (objects s)(r \<mapsto>
                  rule_final i (keybindings (apps sA i) (rule_id (command mi))) (command mi) parent False a),
              log := log s @ refresh_log (command mi) i\<rparr>)
      | Inr u \<Rightarrow>
          (Inr r,
           sA\<lparr>objects := (objects s)(r \<mapsto>
                  menu_refreshed mi (command mi) Map.empty
                    (menu_object i (keybindings (apps sA i) (rule_id (command mi))) mi parent a)),
              app_destroyed := (app_destroyed s)(i := app_destroyed s i @ [(i, item_hash mi)]),
              log := log s @ refresh_log (command mi) i\<rparr>))"
proof -
  have n: "QMenuItemAction_new mi app parent True s = (r, sA)"
    by (rule QMenuItemAction_new_hit[OF assms(1,2)])
  have fr: "objects sA = objects s" "app_destroyed sA = app_destroyed s" "log sA = log s"
    using resolve_app_frame[OF assms(1)] by simp_all
  have o: "objects sA r = Some a" using assms(3) fr by simp
  have r: "resolve_app app sA = (i, sA)" by (rule resolve_app_idem[OF assms(1)])
  show ?thesis
    by (cases "refresh_result (command mi)")
       (simp_all add: QMenuItemAction_def n QMenuItemAction_init_closed[OF o assms(4) r] put_def fr)
qed

lemma QMenuItemAction_hit_initialized:
  assumes "resolve_app app s = (i, sA)" "cache s (i, item_hash mi) = Some r"
    "objects s r = Some a" "attr_initialized a = Some True"
    "constructed a" "attr_cmd_rule a = Some cr" "attr_menu_item a = Some m"
  shows "QMenuItemAction mi app parent True s =
     (Inr r, sA\<lparr>objects := (objects s)(r \<mapsto> menu_refreshed m cr Map.empty a)\<rparr>)"
proof -
  have n: "QMenuItemAction_new mi app parent True s = (r, sA)"
    by (rule QMenuItemAction_new_hit[OF assms(1,2)])
  have fr: "objects sA = objects s" using resolve_app_frame[OF assms(1)] by simp
  have o: "objects sA r = Some a" using assms(3) fr by simp
  show ?thesis
    by (simp add: QMenuItemAction_def n QMenuItemAction_init_initialized[OF o assms(4)]
        suppressed_update_closed[OF o assms(5,6,7)] put_def fr)
qed

lemma QMenuItemAction_hit_destroyed:
  assumes "resolve_app app s = (i, sA)" "cache s (i, item_hash mi) = Some r" "objects s r = None"
  shows "QMenuItemAction mi app parent True s = (Inl RuntimeError, sA)"
proof -
  have n: "QMenuItemAction_new mi app parent True s = (r, sA)"
    by (rule QMenuItemAction_new_hit[OF assms(1,2)])
  have o: "objects sA r = None" using assms(3) resolve_app_frame[OF assms(1)] by simp
  show ?thesis by (simp add: QMenuItemAction_def n QMenuItemAction_init_None[OF o])
qed

theorem provider_only_toggle_witness:
  "map_option checked
     (objects (snd (QMenuItemAction demo_provider_only (AppObj 0) None True initial_state)) 0) = Some True \<and>
   map_option checked
     (objects (snd (QMenuItemAction_update_from_context 0 Map.empty
        (snd (QMenuItemAction demo_provider_only (AppObj 0) None True initial_state)))) 0) = Some True \<and>
   map_option checked
     (objects (snd (QCommandRuleAction_update_from_context 0 Map.empty
        (snd (QMenuItemAction demo_provider_only (AppObj 0) None True initial_state)))) 0) = Some True"
  using provider_only_toggle_keeps_checked[where
      s = "snd (QMenuItemAction demo_provider_only (AppObj 0) None True initial_state)" and self = 0 and
      a = "menu_refreshed demo_provider_only (command demo_provider_only) Map.empty
             (menu_object 0 (Some ''Ctrl+K'') demo_provider_only None blank)" and
      cr = "command demo_provider_only" and gc = "Some (Provider (Inr True))" and ctx = Map.empty]
  by (auto simp: QMenuItemAction_miss[where i = 0 and sA = initial_state] resolve_app_def
      demo_provider_only_def demo_item_def demo_rule_def initial_state_def demo_app_def
      refresh_result_def refresh_value_def menu_refreshed_def rule_refreshed_def rule_outcome_def
      enablement_value_def toggled_value_def when_value_def)

lemma demo_resolve [simp]: "resolve_app (AppObj i) s = (i, s)"
  by (simp add: resolve_app_def)

lemmas demo_defs = demo_item_def demo_rule_def initial_state_def demo_app_def
  refresh_result_def refresh_value_def refresh_log_def menu_refreshed_def rule_refreshed_def
  rule_outcome_def menu_outcome_def enablement_value_def toggled_value_def when_value_def

text \<open>
  Claim C3 as stated fails on a hidden action. The menu item \<open>demo_never\<close> has a
  \<^verbatim>\<open>when\<close> expression that is false and a command without enablement expression and without
  toggle. Its construction hides the action, and the toolkit disables an action it hides. A
  later \<^verbatim>\<open>QCommandRuleAction.update_from_context\<close> calls \<^verbatim>\<open>setEnabled(True)\<close>, as there is
  no enablement expression, and returns normally; the toolkit does not enable a hidden
  action, so \<open>enabled\<close> is still false.
\<close>

theorem hidden_action_stays_disabled:
  "enablement (command demo_never) = None \<and>
   fst (QMenuItemAction demo_never (AppObj 0) None True initial_state) = Inr 0 \<and>
   fst (QCommandRuleAction_update_from_context 0 [''x'' \<mapsto> True]
          (snd (QMenuItemAction demo_never (AppObj 0) None True initial_state))) = Inr () \<and>
   map_option enabled
     (objects (snd (QCommandRuleAction_update_from_context 0 [''x'' \<mapsto> True]
          (snd (QMenuItemAction demo_never (AppObj 0) None True initial_state)))) 0) = Some False"
proof -
  let ?m = "menu_object 0 (Some ''Ctrl+K'') demo_never None blank"
  let ?a = "menu_refreshed demo_never (command demo_never) Map.empty ?m"
  let ?S1 = "initial_state\<lparr>objects := [0 \<mapsto> ?a], next_ref := Suc 0, cache := [(0, 7) \<mapsto> 0],
                app_destroyed := (\<lambda>i. [])(0 := [(0, 7)])\<rparr>"
  have r: "refresh_result (command demo_never) = Inr ()" "refresh_log (command demo_never) 0 = []"
    "item_hash demo_never = 7" "rule_id (command demo_never) = ''cmd''"
    "enablement (command demo_never) = None"
    by (simp_all add: demo_never_def demo_defs)
  have 1: "QMenuItemAction demo_never (AppObj 0) None True initial_state = (Inr 0, ?S1)"
    by (simp add: QMenuItemAction_miss[where i = 0 and sA = initial_state] r initial_state_def
        demo_app_def)
  have v: "visible ?a = False"
    by (simp add: demo_never_def demo_defs)
  have o: "objects ?S1 0 = Some ?a" by simp
  have 2: "QCommandRuleAction_update_from_context 0 [''x'' \<mapsto> True] ?S1 =
      (rule_outcome (command demo_never) [''x'' \<mapsto> True],
       put 0 (rule_refreshed (command demo_never) [''x'' \<mapsto> True] ?a) ?S1)"
    by (rule rule_update_closed[OF o]) simp_all
  have 3: "rule_outcome (command demo_never) [''x'' \<mapsto> True] = Inr ()"
    by (simp add: demo_never_def demo_defs)
  have 4: "enabled (rule_refreshed (command demo_never) [''x'' \<mapsto> True] ?a) = False"
    using v by (simp add: rule_refreshed_def enablement_value_def toggled_value_def demo_never_def demo_item_def demo_rule_def)
  show ?thesis
    unfolding 1 fst_conv snd_conv 2 using r(5) 3 4 by simp
qed

text \<open>
  Claim C3, amended. On an action whose command rule is set, for every command rule, when
  the enablement expression (if any) evaluates without error against \<open>ctx1\<close>,
  \<^verbatim>\<open>update_from_context(ctx1)\<close> asks the toolkit for the value of the enablement expression
  (for true when there is none): the request is recorded, and \<open>enabled\<close> becomes that
  value when the action is visible and is false when the action is hidden. This holds
  whatever the toggle is, also when the evaluation of the toggle then raises; apart from the
  enabled state, the call changes at most \<open>checked\<close>. Independently, when the toggle is a
  bare expression \<open>E\<close> that evaluates without error, the call returns normally and
  \<open>checked\<close> is the value of \<open>E\<close>, whatever the value of \<open>enabled\<close>; a second
  call with \<open>ctx2\<close> overwrites both, so the result depends on the last context only.
\<close>

theorem update_from_context_enabled_request_and_checked:
  assumes "objects s self = Some a" and "constructed a" and "attr_cmd_rule a = Some cr"
    and "(case enablement cr of Some e \<Rightarrow> eval e ctx1 | None \<Rightarrow> Inr True) = Inr en1"
    and "(case enablement cr of Some e \<Rightarrow> eval e ctx2 | None \<Rightarrow> Inr True) = Inr en2"
  shows "(\<exists>ch. snd (QCommandRuleAction_update_from_context self ctx1 s) =
            s\<lparr>objects := (objects s)(self \<mapsto>
                 a\<lparr>explicit_enabled := en1, enabled := en1 \<and> visible a, checked := ch\<rparr>)\<rparr>) \<and>
         (\<forall>E ch1 ch2. toggled cr = Some (IsExpr E) \<longrightarrow> eval E ctx1 = Inr ch1 \<longrightarrow> eval E ctx2 = Inr ch2 \<longrightarrow>
            QCommandRuleAction_update_from_context self ctx1 s =
              (Inr (), s\<lparr>objects := (objects s)(self \<mapsto>
                 a\<lparr>explicit_enabled := en1, enabled := en1 \<and> visible a, checked := ch1\<rparr>)\<rparr>) \<and>
            QCommandRuleAction_update_from_context self ctx2
                (s\<lparr>objects := (objects s)(self \<mapsto>
                   a\<lparr>explicit_enabled := en1, enabled := en1 \<and> visible a, checked := ch1\<rparr>)\<rparr>) =
              (Inr (), s\<lparr>objects := (objects s)(self \<mapsto>
                 a\<lparr>explicit_enabled := en2, enabled := en2 \<and> visible a, checked := ch2\<rparr>)\<rparr>))"
proof -
  have e1: "enablement_value cr ctx1 = Inr en1" and e2: "enablement_value cr ctx2 = Inr en2"
    using assms(4,5) by (simp_all add: enablement_value_def split: option.splits)
  let ?A = "\<lambda>en ch. a\<lparr>explicit_enabled := en, enabled := en \<and> visible a, checked := ch\<rparr>"
  have w: "(with_enabled en b)\<lparr>checked := ch\<rparr> =
      b\<lparr>explicit_enabled := en, enabled := en \<and> visible b, checked := ch\<rparr>" for en ch b
    by (simp add: with_enabled_def)
  have w0: "with_enabled en1 a = ?A en1 (checked a)"
    by (simp add: with_enabled_def)
  have c: "QCommandRuleAction_update_from_context self ctx1 s =
      (rule_outcome cr ctx1, put self (rule_refreshed cr ctx1 a) s)"
    by (rule rule_update_closed[OF assms(1,2,3)])
  have "\<exists>ch. rule_refreshed cr ctx1 a = ?A en1 ch"
  proof (cases "toggled_value cr ctx1")
    case None
    then have "rule_refreshed cr ctx1 a = ?A en1 (checked a)"
      by (simp add: rule_refreshed_def e1 w0)
    then show ?thesis by blast
  next
    case (Some v)
    show ?thesis
    proof (cases v)
      case (Inl e)
      then have "rule_refreshed cr ctx1 a = ?A en1 (checked a)"
        using Some by (simp add: rule_refreshed_def e1 w0)
      then show ?thesis by blast
    next
      case (Inr ch)
      then have "rule_refreshed cr ctx1 a = ?A en1 ch"
        using Some by (simp add: rule_refreshed_def e1 w)
      then show ?thesis by blast
    qed
  qed
  then have A: "\<exists>ch. snd (QCommandRuleAction_update_from_context self ctx1 s) =
            s\<lparr>objects := (objects s)(self \<mapsto> ?A en1 ch)\<rparr>"
    by (auto simp: c put_def)
  have B: "QCommandRuleAction_update_from_context self ctx1 s = (Inr (), put self (?A en1 ch1) s) \<and>
           QCommandRuleAction_update_from_context self ctx2 (put self (?A en1 ch1) s) =
             (Inr (), put self (?A en2 ch2) s)"
    if t: "toggled cr = Some (IsExpr E)" and x1: "eval E ctx1 = Inr ch1" and x2: "eval E ctx2 = Inr ch2"
    for E ch1 ch2
  proof -
    have t1: "toggled_value cr ctx1 = Some (Inr ch1)" and t2: "toggled_value cr ctx2 = Some (Inr ch2)"
      using t x1 x2 by (simp_all add: toggled_value_def)
    have 1: "QCommandRuleAction_update_from_context self ctx1 s = (Inr (), put self (?A en1 ch1) s)"
      by (simp add: c rule_outcome_def rule_refreshed_def e1 t1 w)
    have "QCommandRuleAction_update_from_context self ctx2 (put self (?A en1 ch1) s) =
          (rule_outcome cr ctx2, put self (rule_refreshed cr ctx2 (?A en1 ch1)) (put self (?A en1 ch1) s))"
      by (rule rule_update_closed) (simp_all add: assms)
    moreover have "rule_refreshed cr ctx2 (?A en1 ch1) = ?A en2 ch2"
      by (simp add: rule_refreshed_def e2 t2 with_enabled_def)
    ultimately have 2: "QCommandRuleAction_update_from_context self ctx2 (put self (?A en1 ch1) s) =
          (Inr (), put self (?A en2 ch2) s)"
      by (simp add: rule_outcome_def e2 t2)
    show ?thesis using 1 2 by simp
  qed
  show ?thesis using A B by (simp add: put_def)
qed

theorem update_from_context_request_witness:
  "map_option enabled
     (objects (snd (QCommandRuleAction (demo_rule (Some (Name ''y'')) None) (AppObj 0) None False
        initial_state)) 0) = Some True \<and>
   map_option enabled
     (objects (snd (QCommandRuleAction_update_from_context 0 [''y'' \<mapsto> False]
        (snd (QCommandRuleAction (demo_rule (Some (Name ''y'')) None) (AppObj 0) None False
           initial_state)))) 0) = Some False \<and>
   map_option enabled
     (objects (snd (QCommandRuleAction_update_from_context 0 [''x'' \<mapsto> True]
        (snd (QCommandRuleAction demo_toggle (AppObj 0) None False initial_state)))) 0) = Some False \<and>
   map_option checked
     (objects (snd (QCommandRuleAction_update_from_context 0 [''x'' \<mapsto> True]
        (snd (QCommandRuleAction demo_toggle (AppObj 0) None False initial_state)))) 0) = Some True \<and>
   map_option checked
     (objects (snd (QCommandRuleAction_update_from_context 0 [''x'' \<mapsto> False]
        (snd (QCommandRuleAction_update_from_context 0 [''x'' \<mapsto> True]
           (snd (QCommandRuleAction demo_toggle (AppObj 0) None False initial_state)))))) 0) = Some False \<and>
   map_option visible
     (objects (snd (QMenuItemAction demo_provider_only (AppObj 0) None True initial_state)) 0) =
     Some False \<and>
   map_option explicit_enabled
     (objects (snd (QCommandRuleAction_update_from_context 0 Map.empty
        (snd (QMenuItemAction demo_provider_only (AppObj 0) None True initial_state)))) 0) =
     Some True \<and>
   map_option enabled
     (objects (snd (QCommandRuleAction_update_from_context 0 Map.empty
        (snd (QMenuItemAction demo_provider_only (AppObj 0) None True initial_state)))) 0) =
     Some False"
proof -
  let ?R = "demo_rule (Some (Name ''y'')) None"
  let ?SR = "snd (QCommandRuleAction ?R (AppObj 0) None False initial_state)"
  let ?aR = "rule_final 0 (Some ''Ctrl+K'') ?R None False blank"
  let ?ST = "snd (QCommandRuleAction demo_toggle (AppObj 0) None False initial_state)"
  let ?aT = "rule_final 0 (Some ''Ctrl+K'') demo_toggle None False blank"
  have oR: "objects ?SR 0 = Some ?aR"
    by (simp add: QCommandRuleAction_closed demo_rule_def initial_state_def demo_app_def)
  have oT: "objects ?ST 0 = Some ?aT"
    by (simp add: QCommandRuleAction_closed demo_toggle_def demo_rule_def initial_state_def demo_app_def)
  have vR: "enabled ?aR" "visible ?aR" and vT: "visible ?aT"
    by (simp_all add: blank_def)
  have eR: "(case enablement ?R of Some e \<Rightarrow> eval e [''y'' \<mapsto> False] | None \<Rightarrow> Inr True) = Inr False"
    by (simp add: demo_rule_def)
  have eT: "(case enablement demo_toggle of Some e \<Rightarrow> eval e ctx | None \<Rightarrow> Inr True) = Inr False" for ctx
    by (simp add: demo_toggle_def demo_rule_def)
  have tT: "toggled demo_toggle = Some (IsExpr (Name ''x''))"
    by (simp add: demo_toggle_def demo_rule_def)
  let ?SP = "snd (QMenuItemAction demo_provider_only (AppObj 0) None True initial_state)"
  let ?aP = "menu_refreshed demo_provider_only (command demo_provider_only) Map.empty
               (menu_object 0 (Some ''Ctrl+K'') demo_provider_only None blank)"
  have oP: "objects ?SP 0 = Some ?aP"
    by (simp add: QMenuItemAction_miss[where i = 0 and sA = initial_state] demo_provider_only_def
        demo_item_def demo_rule_def initial_state_def demo_app_def refresh_result_def refresh_value_def)
  have vP: "visible ?aP = False"
    by (simp add: demo_provider_only_def demo_defs)
  have eP: "(case enablement (command demo_provider_only) of Some e \<Rightarrow> eval e Map.empty
             | None \<Rightarrow> Inr True) = Inr True"
    by (simp add: demo_provider_only_def demo_item_def demo_rule_def)
  note P = update_from_context_enabled_request_and_checked[OF oP _ _ eP eP, simplified]
  obtain ch' where 3: "snd (QCommandRuleAction_update_from_context 0 Map.empty ?SP) =
      ?SP\<lparr>objects := (objects ?SP)(0 \<mapsto>
        ?aP\<lparr>explicit_enabled := True, enabled := visible ?aP, checked := ch'\<rparr>)\<rparr>"
    using P by blast
  have x: "eval (Name ''x'') [''x'' \<mapsto> True] = Inr True" "eval (Name ''x'') [''x'' \<mapsto> False] = Inr False"
    by simp_all
  note R = update_from_context_enabled_request_and_checked[OF oR _ _ eR eR, simplified]
  note T = update_from_context_enabled_request_and_checked[OF oT _ _ eT eT, simplified,
      where ?ctx1.0 = "[''x'' \<mapsto> True]" and ?ctx2.0 = "[''x'' \<mapsto> False]"]
  obtain ch where 1: "snd (QCommandRuleAction_update_from_context 0 [''y'' \<mapsto> False] ?SR) =
      ?SR\<lparr>objects := (objects ?SR)(0 \<mapsto> ?aR\<lparr>explicit_enabled := False, enabled := False, checked := ch\<rparr>)\<rparr>"
    using R by blast
  have T2: "QCommandRuleAction_update_from_context 0 [''x'' \<mapsto> True] ?ST =
              (Inr (), ?ST\<lparr>objects := (objects ?ST)(0 \<mapsto>
                 ?aT\<lparr>explicit_enabled := False, enabled := False, checked := True\<rparr>)\<rparr>) \<and>
            QCommandRuleAction_update_from_context 0 [''x'' \<mapsto> False]
                (?ST\<lparr>objects := (objects ?ST)(0 \<mapsto>
                   ?aT\<lparr>explicit_enabled := False, enabled := False, checked := True\<rparr>)\<rparr>) =
              (Inr (), ?ST\<lparr>objects := (objects ?ST)(0 \<mapsto>
                 ?aT\<lparr>explicit_enabled := False, enabled := False, checked := False\<rparr>)\<rparr>)"
    using T tT x by blast
  show ?thesis
    using oR vR(1) 1 T2 oP vP 3 by simp
qed


text \<open>
  Claim C10. In a first-time construction with caching enabled (the key is not in the
  cache), when \<^verbatim>\<open>__init__\<close> raises \<open>e\<close>, the constructor call raises the same \<open>e\<close>, and
  the instance that \<^verbatim>\<open>__new__\<close> allocated and registered is still in the cache under the
  key, and still in the heap, with \<^verbatim>\<open>_initialized\<close> never assigned.
\<close>

theorem failed_construction_stays_cached:
  assumes "resolve_app app s = (i, sA)" and "cache s (i, item_hash mi) = None"
    and "QMenuItemAction mi app parent True s = (Inl e, s2)"
  shows "fst (QMenuItemAction_new mi app parent True s) = next_ref s \<and>
         fst (QMenuItemAction_init (next_ref s) mi app parent True
                (snd (QMenuItemAction_new mi app parent True s))) = Inl e \<and>
         cache s2 (i, item_hash mi) = Some (next_ref s) \<and>
         (\<exists>a. objects s2 (next_ref s) = Some a \<and> attr_initialized a = None)"
proof -
  have m: "\<not> True \<or> cache s (i, item_hash mi) = None" using assms(2) by simp
  have r: "refresh_result (command mi) = Inl e"
    using assms(3) by (cases "refresh_result (command mi)")
      (simp_all add: QMenuItemAction_miss[OF assms(1) m])
  have s2: "s2 = sA\<lparr>objects := (objects s)(next_ref s \<mapsto>
                  rule_final i (keybindings (apps sA i) (rule_id (command mi))) (command mi) parent False blank),
              next_ref := Suc (next_ref s),
              cache := (cache s)((i, item_hash mi) \<mapsto> next_ref s),
              log := log s @ refresh_log (command mi) i\<rparr>"
    using assms(3) by (simp add: QMenuItemAction_miss[OF assms(1) m] r)
  have n: "QMenuItemAction_new mi app parent True s =
     (next_ref s,
      sA\<lparr>objects := (objects s)(next_ref s \<mapsto> blank), next_ref := Suc (next_ref s),
         cache := (cache s)((i, item_hash mi) \<mapsto> next_ref s)\<rparr>)"
    using QMenuItemAction_new_miss[OF assms(1) m, of parent] by simp
  have "fst (QMenuItemAction_init (next_ref s) mi app parent True
                (snd (QMenuItemAction_new mi app parent True s))) = Inl e"
    using assms(3) by (simp add: QMenuItemAction_def n split: prod.splits sum.splits)
  then show ?thesis by (simp add: n s2)
qed

theorem failed_construction_witness:
  "fst (QMenuItemAction demo_failing (AppObj 0) None True initial_state) = Inl (Failure ''boom'') \<and>
   cache (snd (QMenuItemAction demo_failing (AppObj 0) None True initial_state)) (0, 7) = Some 0"
  using failed_construction_stays_cached[where app = "AppObj 0" and s = initial_state and i = 0 and
      sA = initial_state and mi = demo_failing and parent = None and e = "Failure ''boom''" and
      ?s2.0 = "snd (QMenuItemAction demo_failing (AppObj 0) None True initial_state)"]
  by (simp add: QMenuItemAction_miss[where i = 0 and sA = initial_state] demo_failing_def demo_defs)

lemma reinit_initialized:
  assumes "objects s self = Some a" "attr_initialized a = Some True"
  shows "\<exists>ex en ch vis. reinit self calls s =
           put self (a\<lparr>explicit_enabled := ex, enabled := en, checked := ch, visible := vis\<rparr>) s"
  using assms
proof (induction calls arbitrary: s a)
  case Nil
  have "put self (a\<lparr>explicit_enabled := explicit_enabled a, enabled := enabled a, checked := checked a,
      visible := visible a\<rparr>) s = s"
    using Nil by (simp add: put_same)
  then have "reinit self [] s = put self (a\<lparr>explicit_enabled := explicit_enabled a,
      enabled := enabled a, checked := checked a, visible := visible a\<rparr>) s"
    by (simp add: reinit_def)
  then show ?case by blast
next
  case (Cons c calls)
  obtain mi app parent cf where c: "c = (mi, app, parent, cf)" by (cases c) auto
  obtain ex en ch vis where u: "snd (QMenuItemAction_update_from_context self Map.empty s) =
      put self (a\<lparr>explicit_enabled := ex, enabled := en, checked := ch, visible := vis\<rparr>) s"
    using menu_update_frame[OF Cons.prems(1)] by blast
  let ?a1 = "a\<lparr>explicit_enabled := ex, enabled := en, checked := ch, visible := vis\<rparr>"
  have step: "snd (QMenuItemAction_init self mi app parent cf s) = put self ?a1 s"
    by (simp add: QMenuItemAction_init_initialized[OF Cons.prems] u)
  have o1: "objects (put self ?a1 s) self = Some ?a1" by simp
  have i1: "attr_initialized ?a1 = Some True" using Cons.prems(2) by simp
  obtain ex' en' ch' vis' where "reinit self calls (put self ?a1 s) =
      put self (?a1\<lparr>explicit_enabled := ex', enabled := en', checked := ch', visible := vis'\<rparr>)
        (put self ?a1 s)"
    using Cons.IH[OF o1 i1] by blast
  then have "reinit self (c # calls) s =
      put self (a\<lparr>explicit_enabled := ex', enabled := en', checked := ch', visible := vis'\<rparr>) s"
    using step by (simp add: reinit_def c)
  then show ?case by blast
qed

text \<open>
  Claim C2 as stated fails: the \<^verbatim>\<open>_initialized\<close> flag is assigned at the end of the body,
  so a body that raises leaves it unset. The toggle provider of \<open>demo_failing\<close> raises
  inside \<^verbatim>\<open>_refresh\<close>. The first construction raises and leaves instance \<open>0\<close> in the cache;
  the second construction finds it there, \<^verbatim>\<open>__init__\<close> is invoked on it again, and the body
  runs a second time: \<^verbatim>\<open>QCommandAction.__init__\<close> has connected \<^verbatim>\<open>triggered\<close> twice and the
  provider has been called twice.
\<close>

theorem init_body_runs_twice:
  "fst (QMenuItemAction demo_failing (AppObj 0) None True initial_state) = Inl (Failure ''boom'') \<and>
   fst (QMenuItemAction_new demo_failing (AppObj 0) None True
          (snd (QMenuItemAction demo_failing (AppObj 0) None True initial_state))) = 0 \<and>
   map_option triggered_slots
     (objects (snd (QMenuItemAction demo_failing (AppObj 0) None True initial_state)) 0) = Some 1 \<and>
   map_option triggered_slots
     (objects (snd (QMenuItemAction demo_failing (AppObj 0) None True
        (snd (QMenuItemAction demo_failing (AppObj 0) None True initial_state)))) 0) = Some 2 \<and>
   log (snd (QMenuItemAction demo_failing (AppObj 0) None True
        (snd (QMenuItemAction demo_failing (AppObj 0) None True initial_state)))) =
     [Inject 0, GetCurrent, Inject 0, GetCurrent]"
proof -
  let ?a1 = "rule_final 0 (Some ''Ctrl+K'') (command demo_failing) None False blank"
  let ?S1 = "initial_state\<lparr>objects := [0 \<mapsto> ?a1], next_ref := Suc 0, cache := [(0, 7) \<mapsto> 0],
                log := [Inject 0, GetCurrent]\<rparr>"
  have r: "refresh_result (command demo_failing) = Inl (Failure ''boom'')"
    "refresh_log (command demo_failing) 0 = [Inject 0, GetCurrent]"
    "item_hash demo_failing = 7" "rule_id (command demo_failing) = ''cmd''"
    by (simp_all add: demo_failing_def demo_defs)
  have 1: "QMenuItemAction demo_failing (AppObj 0) None True initial_state = (Inl (Failure ''boom''), ?S1)"
    by (simp add: QMenuItemAction_miss[where i = 0 and sA = initial_state] r initial_state_def
        demo_app_def)
  have n: "QMenuItemAction_new demo_failing (AppObj 0) None True ?S1 = (0, ?S1)"
    by (rule QMenuItemAction_new_hit) (simp_all add: r)
  have 2: "QMenuItemAction demo_failing (AppObj 0) None True ?S1 =
     (Inl (Failure ''boom''),
      ?S1\<lparr>objects := (objects ?S1)(0 \<mapsto>
               rule_final 0 (keybindings (apps ?S1 0) ''cmd'') (command demo_failing) None False ?a1),
           log := log ?S1 @ [Inject 0, GetCurrent]\<rparr>)"
    by (subst QMenuItemAction_hit_uninitialized[where i = 0 and sA = ?S1 and r = 0 and a = ?a1])
       (simp_all add: r)
  show ?thesis
    unfolding 1 fst_conv snd_conv n 2 by simp
qed

text \<open>
  Claim C2, amended. Take an instance whose \<^verbatim>\<open>_initialized\<close> flag is not set and an
  \<^verbatim>\<open>__init__\<close> call on it that returns normally. That call ran the body once: one delegation
  to the command-rule initialiser (one more connection of \<^verbatim>\<open>triggered\<close>), the menu item
  stored, one hook connected to the action's \<^verbatim>\<open>destroyed\<close> signal and one to the
  application's, and the flag set. Every later \<^verbatim>\<open>__init__\<close> call on the instance, however
  many follow and whatever their arguments, skips the body: together they change nothing in
  the program state but the \<open>enabled\<close>, \<open>checked\<close> and \<open>visible\<close> properties of
  the instance (and the enabled state the toolkit records as requested), which the
  empty-context update writes.
\<close>

theorem init_body_runs_once_after_success:
  assumes "objects s self = Some a" and "attr_initialized a \<noteq> Some True"
    and "resolve_app app s = (i, sA)"
    and "QMenuItemAction_init self mi app parent cf s = (Inr (), s1)"
  shows "\<exists>a1. objects s1 self = Some a1 \<and> attr_initialized a1 = Some True \<and>
      attr_menu_item a1 = Some mi \<and> attr_cmd_rule a1 = Some (command mi) \<and>
      triggered_slots a1 = Suc (triggered_slots a) \<and>
      destroyed_slots a1 = destroyed_slots a @ [(i, item_hash mi)] \<and>
      app_destroyed s1 = (app_destroyed s)(i := app_destroyed s i @ [(i, item_hash mi)]) \<and>
      (\<forall>calls. \<exists>ex en ch vis. reinit self calls s1 =
          s1\<lparr>objects := (objects s1)(self \<mapsto>
               a1\<lparr>explicit_enabled := ex, enabled := en, checked := ch, visible := vis\<rparr>)\<rparr>)"
proof -
  let ?a1 = "menu_refreshed mi (command mi) Map.empty
                 (menu_object i (keybindings (apps sA i) (rule_id (command mi))) mi parent a)"
  have r: "refresh_result (command mi) = Inr ()"
    using assms(4) by (cases "refresh_result (command mi)")
      (simp_all add: QMenuItemAction_init_closed[OF assms(1,2,3)])
  have s1: "s1 = (put self ?a1 sA)
             \<lparr>app_destroyed := (app_destroyed s)(i := app_destroyed s i @ [(i, item_hash mi)]),
              log := log s @ refresh_log (command mi) i\<rparr>"
    using assms(4) by (simp add: QMenuItemAction_init_closed[OF assms(1,2,3)] r)
  have o: "objects s1 self = Some ?a1" by (simp add: s1)
  have i: "attr_initialized ?a1 = Some True" by simp
  have "\<forall>calls. \<exists>ex en ch vis. reinit self calls s1 =
          s1\<lparr>objects := (objects s1)(self \<mapsto>
               ?a1\<lparr>explicit_enabled := ex, enabled := en, checked := ch, visible := vis\<rparr>)\<rparr>"
    using reinit_initialized[OF o i] by (simp add: put_def)
  then show ?thesis using o by (simp add: s1)
qed

lemma demo_new:
  "QMenuItemAction_new demo_hidden (AppObj 0) None True initial_state =
     (0, initial_state\<lparr>objects := [0 \<mapsto> blank], next_ref := Suc 0, cache := [(0, 7) \<mapsto> 0]\<rparr>)"
  by (simp add: QMenuItemAction_new_miss[where i = 0 and sA = initial_state] demo_hidden_def
      demo_item_def initial_state_def)

lemma demo_init:
  "fst (QMenuItemAction_init 0 demo_hidden (AppObj 0) None True
          (initial_state\<lparr>objects := [0 \<mapsto> blank], next_ref := Suc 0, cache := [(0, 7) \<mapsto> 0]\<rparr>)) = Inr ()"
  by (subst QMenuItemAction_init_closed[where a = blank and i = 0 and
        ?s1.0 = "initial_state\<lparr>objects := [0 \<mapsto> blank], next_ref := Suc 0, cache := [(0, 7) \<mapsto> 0]\<rparr>"])
     (simp_all add: demo_hidden_def demo_defs)

theorem init_body_runs_once_witness:
  "fst (QMenuItemAction_init 0 demo_hidden (AppObj 0) None True
          (snd (QMenuItemAction_new demo_hidden (AppObj 0) None True initial_state))) = Inr () \<and>
   map_option triggered_slots
     (objects
        (reinit 0 [(demo_failing, AppObj 0, None, True), (demo_hidden, AppObj 1, None, False)]
           (snd (QMenuItemAction_init 0 demo_hidden (AppObj 0) None True
              (snd (QMenuItemAction_new demo_hidden (AppObj 0) None True initial_state))))) 0) = Some 1 \<and>
   app_destroyed
     (reinit 0 [(demo_failing, AppObj 0, None, True), (demo_hidden, AppObj 1, None, False)]
        (snd (QMenuItemAction_init 0 demo_hidden (AppObj 0) None True
           (snd (QMenuItemAction_new demo_hidden (AppObj 0) None True initial_state))))) 0 = [(0, 7)]"
proof -
  let ?sN = "initial_state\<lparr>objects := [0 \<mapsto> blank], next_ref := Suc 0, cache := [(0, 7) \<mapsto> 0]\<rparr>"
  let ?s1 = "snd (QMenuItemAction_init 0 demo_hidden (AppObj 0) None True ?sN)"
  let ?calls = "[(demo_failing, AppObj 0, None, True), (demo_hidden, AppObj 1, None, False)]"
  have o: "objects ?sN 0 = Some blank" by simp
  have u: "attr_initialized blank \<noteq> Some True" by simp
  have f: "QMenuItemAction_init 0 demo_hidden (AppObj 0) None True ?sN = (Inr (), ?s1)"
    using demo_init by (metis prod.collapse)
  obtain a1 where a1: "objects ?s1 0 = Some a1" "triggered_slots a1 = Suc (triggered_slots blank)"
    "app_destroyed ?s1 = (app_destroyed ?sN)(0 := app_destroyed ?sN 0 @ [(0, item_hash demo_hidden)])"
    "\<forall>calls. \<exists>ex en ch vis. reinit 0 calls ?s1 =
          ?s1\<lparr>objects := (objects ?s1)(0 \<mapsto>
               a1\<lparr>explicit_enabled := ex, enabled := en, checked := ch, visible := vis\<rparr>)\<rparr>"
    using init_body_runs_once_after_success[OF o u demo_resolve f] by blast
  obtain ex en ch vis where "reinit 0 ?calls ?s1 =
          ?s1\<lparr>objects := (objects ?s1)(0 \<mapsto>
               a1\<lparr>explicit_enabled := ex, enabled := en, checked := ch, visible := vis\<rparr>)\<rparr>"
    using a1(4) by blast
  then show ?thesis
    using a1(1,2,3) demo_init
    by (simp add: demo_new) (simp add: initial_state_def demo_hidden_def demo_item_def)
qed

lemma getattr_initialized_True:
  "getattr_initialized self s = Inr True \<longleftrightarrow> (\<exists>a. objects s self = Some a \<and> attr_initialized a = Some True)"
  by (auto simp: getattr_initialized_def split: option.splits)

text \<open>
  Claim C5. In a well-formed state, the outcome of \<^verbatim>\<open>QMenuItemAction.__init__\<close> is decided
  before the empty-context update: when the instance is already initialised, \<^verbatim>\<open>__init__\<close>
  returns normally, and otherwise it raises exactly when the initialisation body raises. The
  call \<^verbatim>\<open>update_from_context({})\<close> that ends \<^verbatim>\<open>__init__\<close> never adds an exception: the
  evaluation of \<^verbatim>\<open>enablement\<close>, \<^verbatim>\<open>toggled\<close> or \<^verbatim>\<open>when\<close> can only fail with \<^verbatim>\<open>NameError\<close>
  on a variable missing from the empty context, and that failure is suppressed.
\<close>

theorem empty_context_update_never_raises:
  assumes "well_formed s"
  shows "fst (QMenuItemAction_init self mi app parent cf s) =
           (if getattr_initialized self s = Inr True then Inr ()
            else fst (init_body self mi app parent s))"
proof (cases "objects s self")
  case None
  then show ?thesis
    by (simp add: QMenuItemAction_init_None init_body_None getattr_initialized_True)
next
  case (Some a)
  show ?thesis
  proof (cases "attr_initialized a = Some True")
    case True
    then obtain cr m where c: "constructed a" "attr_cmd_rule a = Some cr" "attr_menu_item a = Some m"
      using assms Some unfolding well_formed_def by blast
    show ?thesis
      using Some True
      by (simp add: QMenuItemAction_init_initialized[OF Some True]
          suppressed_update_closed[OF Some c] getattr_initialized_True)
  next
    case False
    obtain i sA where r: "resolve_app app s = (i, sA)" by (cases "resolve_app app s") auto
    show ?thesis
      using Some False
      by (cases "refresh_result (command mi)")
         (simp_all add: QMenuItemAction_init_closed[OF Some False r] init_body_closed[OF Some r]
            getattr_initialized_True)
  qed
qed

theorem empty_context_update_witness:
  "well_formed (snd (QMenuItemAction_new demo_hidden (AppObj 0) None True initial_state)) \<and>
   eval (Name ''x'') Map.empty = Inl NameError \<and>
   fst (QMenuItemAction_init 0 demo_hidden (AppObj 0) None True
          (snd (QMenuItemAction_new demo_hidden (AppObj 0) None True initial_state))) = Inr ()"
proof -
  let ?sN = "initial_state\<lparr>objects := [0 \<mapsto> blank], next_ref := Suc 0, cache := [(0, 7) \<mapsto> 0]\<rparr>"
  have w: "well_formed ?sN" by (auto simp: well_formed_def initial_state_def split: if_splits)
  have b: "fst (init_body 0 demo_hidden (AppObj 0) None ?sN) = Inr ()"
    by (subst init_body_closed[where a = blank and i = 0 and ?s1.0 = ?sN])
       (simp_all add: demo_hidden_def demo_defs)
  have g: "getattr_initialized 0 ?sN \<noteq> Inr True"
    by (simp add: getattr_initialized_True)
  show ?thesis
    using empty_context_update_never_raises[OF w, of 0 demo_hidden "AppObj 0" None True] b g w
    by (simp add: demo_new)
qed

section \<open>Well-formedness is an invariant\<close>

lemma wf_cong:
  "cache s' = cache s \<Longrightarrow> next_ref s' = next_ref s \<Longrightarrow> objects s' = objects s \<Longrightarrow>
   app_destroyed s' = app_destroyed s \<Longrightarrow> well_formed s' = well_formed s"
  by (simp add: well_formed_def)

lemma wf_resolve_app [simp]: "well_formed (snd (resolve_app app s)) = well_formed s"
  by (rule wf_cong) simp_all

lemma wf_log [simp]: "well_formed (s\<lparr>log := l\<rparr>) = well_formed s"
  by (rule wf_cong) simp_all

lemma wf_initial_state: "well_formed initial_state"
  by (simp add: well_formed_def initial_state_def)

lemma wfD_cache_lt: "well_formed s \<Longrightarrow> cache s k = Some r \<Longrightarrow> r < next_ref s"
  unfolding well_formed_def by blast

lemma wfD_cache_inj: "well_formed s \<Longrightarrow> cache s k = Some r \<Longrightarrow> cache s k' = Some r \<Longrightarrow> k' = k"
  unfolding well_formed_def by blast

lemma wfD_obj_lt: "well_formed s \<Longrightarrow> objects s r = Some a \<Longrightarrow> r < next_ref s"
  unfolding well_formed_def by blast

lemma wfD_init:
  "well_formed s \<Longrightarrow> objects s r = Some a \<Longrightarrow> attr_initialized a = Some True \<Longrightarrow>
     constructed a \<and> attr_cmd_rule a \<noteq> None \<and> attr_menu_item a \<noteq> None"
  unfolding well_formed_def by blast

lemma wfD_hooks:
  "well_formed s \<Longrightarrow> cache s k = Some r \<Longrightarrow> objects s r = Some a \<Longrightarrow> attr_initialized a = Some True \<Longrightarrow>
     k \<in> set (destroyed_slots a) \<and> k \<in> set (app_destroyed s (fst k))"
  unfolding well_formed_def by blast

lemma wfI:
  assumes "\<And>k r. cache s k = Some r \<Longrightarrow> r < next_ref s"
    and "\<And>k k' r. cache s k = Some r \<Longrightarrow> cache s k' = Some r \<Longrightarrow> k' = k"
    and "\<And>r a. objects s r = Some a \<Longrightarrow> r < next_ref s"
    and "\<And>r a. objects s r = Some a \<Longrightarrow> attr_initialized a = Some True \<Longrightarrow>
           constructed a \<and> attr_cmd_rule a \<noteq> None \<and> attr_menu_item a \<noteq> None"
    and "\<And>k r a. cache s k = Some r \<Longrightarrow> objects s r = Some a \<Longrightarrow> attr_initialized a = Some True \<Longrightarrow>
           k \<in> set (destroyed_slots a) \<and> k \<in> set (app_destroyed s (fst k))"
  shows "well_formed s"
  unfolding well_formed_def using assms by blast

lemma wf_put:
  assumes "well_formed s" "objects s r = Some a"
    "attr_initialized a' = Some True \<Longrightarrow>
       constructed a' \<and> attr_cmd_rule a' \<noteq> None \<and> attr_menu_item a' \<noteq> None \<and>
       (\<forall>k. cache s k = Some r \<longrightarrow> k \<in> set (destroyed_slots a') \<and> k \<in> set (app_destroyed s (fst k)))"
  shows "well_formed (put r a' s)"
proof (rule wfI)
  fix k r' assume "cache (put r a' s) k = Some r'"
  then show "r' < next_ref (put r a' s)" using wfD_cache_lt[OF assms(1)] by simp
next
  fix k k' r' assume "cache (put r a' s) k = Some r'" "cache (put r a' s) k' = Some r'"
  then show "k' = k" using wfD_cache_inj[OF assms(1)] by simp
next
  fix r' b assume "objects (put r a' s) r' = Some b"
  then show "r' < next_ref (put r a' s)"
    using wfD_obj_lt[OF assms(1)] assms(2) by (cases "r' = r") simp_all
next
  fix r' b assume o: "objects (put r a' s) r' = Some b" and i: "attr_initialized b = Some True"
  show "constructed b \<and> attr_cmd_rule b \<noteq> None \<and> attr_menu_item b \<noteq> None"
  proof (cases "r' = r")
    case True
    then show ?thesis using o i assms(3) by simp
  next
    case False
    then show ?thesis using o i wfD_init[OF assms(1)] by simp
  qed
next
  fix k r' b
  assume c: "cache (put r a' s) k = Some r'" and o: "objects (put r a' s) r' = Some b"
    and i: "attr_initialized b = Some True"
  show "k \<in> set (destroyed_slots b) \<and> k \<in> set (app_destroyed (put r a' s) (fst k))"
  proof (cases "r' = r")
    case True
    then have "a' = b" "cache s k = Some r" using c o by simp_all
    then show ?thesis using i assms(3) by (cases k) auto
  next
    case False
    then show ?thesis using c o i wfD_hooks[OF assms(1), of k r' b] by simp
  qed
qed

lemma wf_app_destroyed:
  assumes "well_formed s" "\<And>i. set (app_destroyed s i) \<subseteq> set (f i)"
  shows "well_formed (s\<lparr>app_destroyed := f\<rparr>)"
proof (rule wfI)
  fix k r a
  assume "cache (s\<lparr>app_destroyed := f\<rparr>) k = Some r" "objects (s\<lparr>app_destroyed := f\<rparr>) r = Some a"
    "attr_initialized a = Some True"
  then show "k \<in> set (destroyed_slots a) \<and> k \<in> set (app_destroyed (s\<lparr>app_destroyed := f\<rparr>) (fst k))"
    using wfD_hooks[OF assms(1), of k r a] assms(2) by auto
qed (use assms(1) in \<open>auto dest: wfD_cache_lt wfD_cache_inj wfD_obj_lt wfD_init\<close>)

lemma wf_alloc:
  assumes "well_formed s" "attr_initialized a \<noteq> Some True" "\<not> cf \<or> cache s k = None"
  shows "well_formed (s\<lparr>objects := (objects s)(next_ref s \<mapsto> a), next_ref := Suc (next_ref s),
               cache := (if cf then (cache s)(k \<mapsto> next_ref s) else cache s)\<rparr>)"
    (is "well_formed ?s'")
proof (rule wfI)
  fix k' r assume "cache ?s' k' = Some r"
  then have "r = next_ref s \<or> cache s k' = Some r" by (auto split: if_splits)
  then have "r = next_ref s \<or> r < next_ref s" using wfD_cache_lt[OF assms(1), of k' r] by blast
  then show "r < next_ref ?s'" by auto
next
  fix k1 k2 r assume c: "cache ?s' k1 = Some r" "cache ?s' k2 = Some r"
  have old: "\<And>k'. cache s k' \<noteq> Some (next_ref s)"
    using wfD_cache_lt[OF assms(1)] by (metis less_irrefl)
  from c have "(k1 = k \<and> r = next_ref s \<and> cf) \<or> cache s k1 = Some r"
    by (auto split: if_splits)
  moreover from c have "(k2 = k \<and> r = next_ref s \<and> cf) \<or> cache s k2 = Some r"
    by (auto split: if_splits)
  ultimately show "k2 = k1"
    using old wfD_cache_inj[OF assms(1), of k1 r k2] by metis
next
  fix r b assume "objects ?s' r = Some b"
  then have "r = next_ref s \<or> objects s r = Some b" by (auto split: if_splits)
  then have "r = next_ref s \<or> r < next_ref s" using wfD_obj_lt[OF assms(1), of r b] by blast
  then show "r < next_ref ?s'" by auto
next
  fix r b assume o: "objects ?s' r = Some b" and i: "attr_initialized b = Some True"
  then have "objects s r = Some b" using assms(2) by (auto split: if_splits)
  then show "constructed b \<and> attr_cmd_rule b \<noteq> None \<and> attr_menu_item b \<noteq> None"
    using wfD_init[OF assms(1) _ i] by blast
next
  fix k' r b assume c: "cache ?s' k' = Some r" and o: "objects ?s' r = Some b"
    and i: "attr_initialized b = Some True"
  have ob: "objects s r = Some b" "r \<noteq> next_ref s" using o i assms(2) by (auto split: if_splits)
  then have "cache s k' = Some r" using c by (auto split: if_splits)
  then show "k' \<in> set (destroyed_slots b) \<and> k' \<in> set (app_destroyed ?s' (fst k'))"
    using wfD_hooks[OF assms(1) _ ob(1) i, of k'] by simp
qed

lemma wf_initialize:
  assumes "well_formed s" "objects s r = Some a" "\<And>k'. cache s k' = Some r \<Longrightarrow> k' = k"
    "constructed a'" "attr_cmd_rule a' \<noteq> None" "attr_menu_item a' \<noteq> None"
    "k \<in> set (destroyed_slots a')"
  shows "well_formed (s\<lparr>objects := (objects s)(r \<mapsto> a'),
               app_destroyed := (app_destroyed s)(fst k := app_destroyed s (fst k) @ [k])\<rparr>)"
proof -
  let ?f = "(app_destroyed s)(fst k := app_destroyed s (fst k) @ [k])"
  let ?s1 = "s\<lparr>app_destroyed := ?f\<rparr>"
  have w1: "well_formed ?s1" by (rule wf_app_destroyed[OF assms(1)]) auto
  have o1: "objects ?s1 r = Some a" using assms(2) by simp
  have "well_formed (put r a' ?s1)"
  proof (rule wf_put[OF w1 o1])
    have "\<forall>k'. cache ?s1 k' = Some r \<longrightarrow>
             k' \<in> set (destroyed_slots a') \<and> k' \<in> set (app_destroyed ?s1 (fst k'))"
    proof (intro allI impI)
      fix k' assume "cache ?s1 k' = Some r"
      then have "k' = k" using assms(3) by simp
      then show "k' \<in> set (destroyed_slots a') \<and> k' \<in> set (app_destroyed ?s1 (fst k'))"
        using assms(7) by simp
    qed
    then show "constructed a' \<and> attr_cmd_rule a' \<noteq> None \<and> attr_menu_item a' \<noteq> None \<and>
       (\<forall>k'. cache ?s1 k' = Some r \<longrightarrow>
             k' \<in> set (destroyed_slots a') \<and> k' \<in> set (app_destroyed ?s1 (fst k')))"
      using assms(4,5,6) by blast
  qed
  moreover have "put r a' ?s1 = s\<lparr>objects := (objects s)(r \<mapsto> a'), app_destroyed := ?f\<rparr>"
    by (simp add: put_def)
  ultimately show ?thesis by simp
qed

lemma wf_resolved:
  assumes "resolve_app app s = (i, sA)"
  shows "well_formed sA = well_formed s"
  using wf_resolve_app[of app s] assms by simp

lemma wf_transfer:
  "well_formed s \<Longrightarrow> cache s' = cache s \<Longrightarrow> next_ref s' = next_ref s \<Longrightarrow>
   objects s' = objects s \<Longrightarrow> app_destroyed s' = app_destroyed s \<Longrightarrow> well_formed s'"
  using wf_cong by blast

lemma wf_QMenuItemAction_miss:
  assumes "well_formed s" "resolve_app app s = (i, sA)" "\<not> cf \<or> cache s (i, item_hash mi) = None"
  shows "well_formed (snd (QMenuItemAction mi app parent cf s))"
proof -
  have fr: "objects sA = objects s" "cache sA = cache s" "next_ref sA = next_ref s"
    "app_destroyed sA = app_destroyed s"
    using resolve_app_frame[OF assms(2)] by simp_all
  have wA: "well_formed sA" using assms(1) wf_resolved[OF assms(2)] by simp
  let ?k = "(i, item_hash mi)"
  let ?kb = "keybindings (apps sA i) (rule_id (command mi))"
  let ?c = "if cf then (cache sA)(?k \<mapsto> next_ref sA) else cache sA"
  have m: "\<not> cf \<or> cache sA ?k = None" using assms(3) fr by simp
  show ?thesis
  proof (cases "refresh_result (command mi)")
    case (Inl e)
    have "well_formed (sA\<lparr>objects := (objects sA)(next_ref sA \<mapsto> rule_final i ?kb (command mi) parent False blank),
            next_ref := Suc (next_ref sA), cache := ?c\<rparr>)"
      by (rule wf_alloc[OF wA _ m]) simp
    then have "well_formed (sA\<lparr>objects := (objects s)(next_ref s \<mapsto>
                  rule_final i ?kb (command mi) parent False blank),
              next_ref := Suc (next_ref s),
              cache := (if cf then (cache s)((i, item_hash mi) \<mapsto> next_ref s) else cache s),
              log := log s @ refresh_log (command mi) i\<rparr>)"
      by (rule wf_transfer) (simp_all add: fr)
    then show ?thesis by (simp add: QMenuItemAction_miss[OF assms(2,3)] Inl)
  next
    case (Inr u)
    let ?sN = "sA\<lparr>objects := (objects sA)(next_ref sA \<mapsto> blank), next_ref := Suc (next_ref sA), cache := ?c\<rparr>"
    let ?a' = "menu_refreshed mi (command mi) Map.empty (menu_object i ?kb mi parent blank)"
    have wN: "well_formed ?sN" by (rule wf_alloc[OF wA _ m]) simp
    have old: "\<And>k'. cache sA k' \<noteq> Some (next_ref sA)"
      using wfD_cache_lt[OF wA] by (metis less_irrefl)
    have only: "k' = ?k" if "cache ?sN k' = Some (next_ref sA)" for k'
    proof (cases cf)
      case True
      then show ?thesis using that old[of k'] by (cases "k' = ?k") simp_all
    next
      case False
      then show ?thesis using that old[of k'] by simp
    qed
    have oN: "objects ?sN (next_ref sA) = Some blank" by simp
    have "well_formed (?sN\<lparr>objects := (objects ?sN)(next_ref sA \<mapsto> ?a'),
             app_destroyed := (app_destroyed ?sN)(fst ?k := app_destroyed ?sN (fst ?k) @ [?k])\<rparr>)"
      by (rule wf_initialize[OF wN oN only]) simp_all
    then have "well_formed (sA\<lparr>objects := (objects s)(next_ref s \<mapsto> ?a'),
              next_ref := Suc (next_ref s),
              cache := (if cf then (cache s)((i, item_hash mi) \<mapsto> next_ref s) else cache s),
              app_destroyed := (app_destroyed s)(i := app_destroyed s i @ [(i, item_hash mi)]),
              log := log s @ refresh_log (command mi) i\<rparr>)"
      by (rule wf_transfer) (simp_all add: fr)
    then show ?thesis by (simp add: QMenuItemAction_miss[OF assms(2,3)] Inr)
  qed
qed

lemma wf_QMenuItemAction_hit:
  assumes "well_formed s" "resolve_app app s = (i, sA)" "cache s (i, item_hash mi) = Some r0"
  shows "well_formed (snd (QMenuItemAction mi app parent True s))"
proof -
  have fr: "objects sA = objects s" "cache sA = cache s" "next_ref sA = next_ref s"
    "app_destroyed sA = app_destroyed s"
    using resolve_app_frame[OF assms(2)] by simp_all
  have wA: "well_formed sA" using assms(1) wf_resolved[OF assms(2)] by simp
  let ?k = "(i, item_hash mi)"
  let ?kb = "keybindings (apps sA i) (rule_id (command mi))"
  have only: "\<And>k'. cache sA k' = Some r0 \<Longrightarrow> k' = ?k"
    using wfD_cache_inj[OF assms(1,3)] fr by simp
  show ?thesis
  proof (cases "objects s r0")
    case None
    then show ?thesis using wA by (simp add: QMenuItemAction_hit_destroyed[OF assms(2,3) None])
  next
    case (Some a)
    have oA: "objects sA r0 = Some a" using Some fr by simp
    show ?thesis
    proof (cases "attr_initialized a = Some True")
      case True
      obtain cr m where at: "constructed a" "attr_cmd_rule a = Some cr" "attr_menu_item a = Some m"
        using wfD_init[OF assms(1) Some True] by auto
      have h: "\<And>k. cache sA k = Some r0 \<Longrightarrow>
                 k \<in> set (destroyed_slots a) \<and> k \<in> set (app_destroyed sA (fst k))"
        using wfD_hooks[OF wA _ oA True] by blast
      have "well_formed (put r0 (menu_refreshed m cr Map.empty a) sA)"
      proof (rule wf_put[OF wA oA])
        show "constructed (menu_refreshed m cr Map.empty a) \<and>
           attr_cmd_rule (menu_refreshed m cr Map.empty a) \<noteq> None \<and>
           attr_menu_item (menu_refreshed m cr Map.empty a) \<noteq> None \<and>
           (\<forall>k. cache sA k = Some r0 \<longrightarrow>
              k \<in> set (destroyed_slots (menu_refreshed m cr Map.empty a)) \<and>
              k \<in> set (app_destroyed sA (fst k)))"
          using at h by simp
      qed
      then have "well_formed (sA\<lparr>objects := (objects s)(r0 \<mapsto> menu_refreshed m cr Map.empty a)\<rparr>)"
        by (rule wf_transfer) (simp_all add: fr)
      then show ?thesis
        by (simp add: QMenuItemAction_hit_initialized[OF assms(2,3) Some True at])
    next
      case False
      show ?thesis
      proof (cases "refresh_result (command mi)")
        case (Inl e)
        have "well_formed (put r0 (rule_final i ?kb (command mi) parent False a) sA)"
          by (rule wf_put[OF wA oA]) (use False in simp)
        then have "well_formed (sA\<lparr>objects := (objects s)(r0 \<mapsto> rule_final i ?kb (command mi) parent False a),
            log := log s @ refresh_log (command mi) i\<rparr>)"
          by (rule wf_transfer) (simp_all add: fr)
        then show ?thesis
          by (simp add: QMenuItemAction_hit_uninitialized[OF assms(2,3) Some False] Inl)
      next
        case (Inr u)
        let ?a' = "menu_refreshed mi (command mi) Map.empty (menu_object i ?kb mi parent a)"
        have "well_formed (sA\<lparr>objects := (objects sA)(r0 \<mapsto> ?a'),
             app_destroyed := (app_destroyed sA)(fst ?k := app_destroyed sA (fst ?k) @ [?k])\<rparr>)"
          by (rule wf_initialize[OF wA oA only]) simp_all
        then have "well_formed (sA\<lparr>objects := (objects s)(r0 \<mapsto> ?a'),
            app_destroyed := (app_destroyed s)(i := app_destroyed s i @ [(i, item_hash mi)]),
            log := log s @ refresh_log (command mi) i\<rparr>)"
          by (rule wf_transfer) (simp_all add: fr)
        then show ?thesis
          by (simp add: QMenuItemAction_hit_uninitialized[OF assms(2,3) Some False] Inr)
      qed
    qed
  qed
qed

text \<open>Every constructor call of \<^verbatim>\<open>QMenuItemAction\<close> keeps the state well-formed.\<close>

lemma wf_QMenuItemAction:
  assumes "well_formed s"
  shows "well_formed (snd (QMenuItemAction mi app parent cf s))"
proof -
  obtain i sA where r: "resolve_app app s = (i, sA)" by (cases "resolve_app app s") auto
  show ?thesis
  proof (cases "\<not> cf \<or> cache s (i, item_hash mi) = None")
    case True
    then show ?thesis by (rule wf_QMenuItemAction_miss[OF assms r])
  next
    case False
    then obtain r0 where "cf" "cache s (i, item_hash mi) = Some r0" by auto
    then show ?thesis using wf_QMenuItemAction_hit[OF assms r] by simp
  qed
qed

lemma fold_cache_pop:
  "fold cache_pop ks s = s\<lparr>cache := (\<lambda>k. if k \<in> set ks then None else cache s k)\<rparr>"
proof (induction ks arbitrary: s)
  case Nil
  show ?case by simp
next
  case (Cons k ks)
  have e: "(\<lambda>k'. if k' \<in> set ks then None else cache (cache_pop k s) k') =
        (\<lambda>k'. if k' \<in> set (k # ks) then None else cache s k')"
    by (rule ext) (simp add: cache_pop_def)
  have "fold cache_pop (k # ks) s = fold cache_pop ks (cache_pop k s)" by simp
  also have "\<dots> = (cache_pop k s)\<lparr>cache := (\<lambda>k'. if k' \<in> set ks then None else cache (cache_pop k s) k')\<rparr>"
    by (rule Cons.IH)
  also have "\<dots> = s\<lparr>cache := (\<lambda>k'. if k' \<in> set (k # ks) then None else cache s k')\<rparr>"
    unfolding e by (simp add: cache_pop_def)
  finally show ?case .
qed

lemma destroy_action_closed:
  "objects s r = Some a \<Longrightarrow>
     destroy_action r s =
       s\<lparr>cache := (\<lambda>k. if k \<in> set (destroyed_slots a) then None else cache s k),
         objects := (objects s)(r := None)\<rparr>"
  by (simp add: destroy_action_def fold_cache_pop)

lemma destroy_action_missing: "objects s r = None \<Longrightarrow> destroy_action r s = s"
  by (simp add: destroy_action_def)

lemma destroy_app_closed:
  "destroy_app i s =
     s\<lparr>cache := (\<lambda>k. if k \<in> set (app_destroyed s i) then None else cache s k),
       instances := (\<lambda>nm. if instances s nm = Some i then None else instances s nm)\<rparr>"
  by (simp add: destroy_app_def fold_cache_pop)

lemma wf_cache_restrict:
  assumes "well_formed s"
  shows "well_formed (s\<lparr>cache := (\<lambda>k. if P k then None else cache s k)\<rparr>)" (is "well_formed ?s'")
proof (rule wfI)
  fix k r assume "cache ?s' k = Some r"
  then have "cache s k = Some r" by (simp split: if_splits)
  then show "r < next_ref ?s'" using wfD_cache_lt[OF assms] by simp
next
  fix k k' r assume "cache ?s' k = Some r" "cache ?s' k' = Some r"
  then have "cache s k = Some r" "cache s k' = Some r" by (simp_all split: if_splits)
  then show "k' = k" using wfD_cache_inj[OF assms] by blast
next
  fix r a assume "objects ?s' r = Some a"
  then show "r < next_ref ?s'" using wfD_obj_lt[OF assms, of r a] by simp
next
  fix r a assume "objects ?s' r = Some a" "attr_initialized a = Some True"
  then show "constructed a \<and> attr_cmd_rule a \<noteq> None \<and> attr_menu_item a \<noteq> None"
    using wfD_init[OF assms, of r a] by simp
next
  fix k r a assume c: "cache ?s' k = Some r" and o: "objects ?s' r = Some a"
    and i: "attr_initialized a = Some True"
  from c have "cache s k = Some r" by (simp split: if_splits)
  then show "k \<in> set (destroyed_slots a) \<and> k \<in> set (app_destroyed ?s' (fst k))"
    using wfD_hooks[OF assms _ _ i, of k r] o by simp
qed

lemma wf_remove_object:
  assumes "well_formed s"
  shows "well_formed (s\<lparr>objects := (objects s)(r := None)\<rparr>)" (is "well_formed ?s'")
proof (rule wfI)
  fix k r' assume "cache ?s' k = Some r'"
  then show "r' < next_ref ?s'" using wfD_cache_lt[OF assms, of k r'] by simp
next
  fix k k' r' assume "cache ?s' k = Some r'" "cache ?s' k' = Some r'"
  then show "k' = k" using wfD_cache_inj[OF assms, of k r' k'] by simp
next
  fix r' a assume "objects ?s' r' = Some a"
  then have "objects s r' = Some a" by (simp split: if_splits)
  then show "r' < next_ref ?s'" using wfD_obj_lt[OF assms] by simp
next
  fix r' a assume "objects ?s' r' = Some a" and i: "attr_initialized a = Some True"
  then have "objects s r' = Some a" by (simp split: if_splits)
  then show "constructed a \<and> attr_cmd_rule a \<noteq> None \<and> attr_menu_item a \<noteq> None"
    using wfD_init[OF assms _ i] by blast
next
  fix k r' a assume c: "cache ?s' k = Some r'" and o: "objects ?s' r' = Some a"
    and i: "attr_initialized a = Some True"
  from o have "objects s r' = Some a" by (simp split: if_splits)
  then show "k \<in> set (destroyed_slots a) \<and> k \<in> set (app_destroyed ?s' (fst k))"
    using wfD_hooks[OF assms _ _ i, of k r'] c by simp
qed

text \<open>Destroying an action or an application keeps the state well-formed.\<close>

lemma wf_destroy_action:
  assumes "well_formed s"
  shows "well_formed (destroy_action r s)"
proof (cases "objects s r")
  case None
  then show ?thesis using assms by (simp add: destroy_action_missing)
next
  case (Some a)
  let ?s1 = "s\<lparr>cache := (\<lambda>k. if k \<in> set (destroyed_slots a) then None else cache s k)\<rparr>"
  have "well_formed ?s1" by (rule wf_cache_restrict[OF assms])
  then have "well_formed (?s1\<lparr>objects := (objects ?s1)(r := None)\<rparr>)" by (rule wf_remove_object)
  then show ?thesis by (simp add: destroy_action_closed[OF Some])
qed

lemma wf_destroy_app:
  assumes "well_formed s"
  shows "well_formed (destroy_app i s)"
proof -
  let ?s1 = "s\<lparr>cache := (\<lambda>k. if k \<in> set (app_destroyed s i) then None else cache s k)\<rparr>"
  have "well_formed ?s1" by (rule wf_cache_restrict[OF assms])
  then show ?thesis by (rule wf_transfer) (simp_all add: destroy_app_closed)
qed

lemma construct_success_cached:
  assumes "well_formed s" "resolve_app app s = (i, sA)"
    "QMenuItemAction mi app parent True s = (Inr r, s1)"
  shows "cache s1 (i, item_hash mi) = Some r \<and>
         (\<exists>a1. objects s1 r = Some a1 \<and> attr_initialized a1 = Some True)"
proof (cases "cache s (i, item_hash mi)")
  case None
  then have m: "\<not> True \<or> cache s (i, item_hash mi) = None" by simp
  show ?thesis
    using assms(3)
    by (cases "refresh_result (command mi)")
       (auto simp: QMenuItemAction_miss[OF assms(2) m])
next
  case (Some r0)
  show ?thesis
  proof (cases "objects s r0")
    case None
    then show ?thesis
      using assms(3) by (simp add: QMenuItemAction_hit_destroyed[OF assms(2) Some None])
  next
    case oa: (Some a)
    have cA: "cache sA = cache s" using resolve_app_frame[OF assms(2)] by simp
    show ?thesis
    proof (cases "attr_initialized a = Some True")
      case True
      obtain cr m where at: "constructed a" "attr_cmd_rule a = Some cr" "attr_menu_item a = Some m"
        using wfD_init[OF assms(1) oa True] by auto
      show ?thesis
        using assms(3) Some True cA
        by (auto simp: QMenuItemAction_hit_initialized[OF assms(2) Some oa True at])
    next
      case False
      show ?thesis
        using assms(3) Some cA
        by (cases "refresh_result (command mi)")
           (auto simp: QMenuItemAction_hit_uninitialized[OF assms(2) Some oa False])
    qed
  qed
qed


lemma destroy_action_fields [simp]:
  "next_ref (destroy_action r s) = next_ref s"
  "app_destroyed (destroy_action r s) = app_destroyed s"
  "objects (destroy_action r s) = (objects s)(r := None)"
  "instances (destroy_action r s) = instances s"
proof -
  show "next_ref (destroy_action r s) = next_ref s"
    by (cases "objects s r") (simp_all add: destroy_action_closed destroy_action_missing)
  show "app_destroyed (destroy_action r s) = app_destroyed s"
    by (cases "objects s r") (simp_all add: destroy_action_closed destroy_action_missing)
  show "objects (destroy_action r s) = (objects s)(r := None)"
  proof (cases "objects s r")
    case None
    then have "(objects s)(r := None) = objects s" by (metis fun_upd_triv)
    then show ?thesis using None by (simp add: destroy_action_missing)
  next
    case (Some a)
    then show ?thesis by (simp add: destroy_action_closed)
  qed
  show "instances (destroy_action r s) = instances s"
    by (cases "objects s r") (simp_all add: destroy_action_closed destroy_action_missing)
qed

lemma destroy_action_cache:
  "cache (destroy_action r s) k =
     (case objects s r of
        None \<Rightarrow> cache s k
      | Some a \<Rightarrow> if k \<in> set (destroyed_slots a) then None else cache s k)"
  by (cases "objects s r") (simp_all add: destroy_action_closed destroy_action_missing)

lemma destroy_app_fields [simp]:
  "next_ref (destroy_app i s) = next_ref s"
  "app_destroyed (destroy_app i s) = app_destroyed s"
  "objects (destroy_app i s) = objects s"
  "cache (destroy_app i s) k = (if k \<in> set (app_destroyed s i) then None else cache s k)"
  by (simp_all add: destroy_app_closed)


text \<open>
  Destruction of an initialised instance. In a well-formed state, let \<open>r\<close> be an instance
  with the \<^verbatim>\<open>_initialized\<close> flag set that the cache holds under the key \<open>(i, h)\<close>. After
  the instance is destroyed, or its application \<open>i\<close> is destroyed, or both in either order,
  the cache has no entry for the key, and a construction with caching enabled and the same
  key allocates the next reference.
\<close>

lemma initialised_entry_removed:
  assumes "well_formed s"
    and "cache s (i, h) = Some r" and "objects s r = Some a" and "attr_initialized a = Some True"
    and "s' \<in> {destroy_action r s, destroy_app i s,
                destroy_app i (destroy_action r s), destroy_action r (destroy_app i s)}"
    and "item_hash mi = h" and "fst (resolve_app app s') = i"
  shows "cache s' (i, h) = None \<and>
         fst (QMenuItemAction_new mi app parent True s') = next_ref s' \<and>
         next_ref s' \<noteq> r \<and> objects s' (next_ref s') = None \<and>
         (\<forall>r'. fst (QMenuItemAction mi app parent True s') = Inr r' \<longrightarrow>
            r' = next_ref s' \<and> cache (snd (QMenuItemAction mi app parent True s')) (i, h) = Some r')"
proof -
  have hooks: "(i, h) \<in> set (destroyed_slots a)" "(i, h) \<in> set (app_destroyed s i)"
    using wfD_hooks[OF assms(1,2,3,4)] by simp_all
  have wa: "well_formed (destroy_action r s)" by (rule wf_destroy_action[OF assms(1)])
  have wp: "well_formed (destroy_app i s)" by (rule wf_destroy_app[OF assms(1)])
  have wpa: "well_formed (destroy_app i (destroy_action r s))" by (rule wf_destroy_app[OF wa])
  have wap: "well_formed (destroy_action r (destroy_app i s))" by (rule wf_destroy_action[OF wp])
  have ca: "cache (destroy_action r s) (i, h) = None"
    using assms(3) hooks(1) by (simp add: destroy_action_cache)
  have cp: "cache (destroy_app i s) (i, h) = None"
    using hooks(2) by simp
  have cpa: "cache (destroy_app i (destroy_action r s)) (i, h) = None"
    using hooks(2) by simp
  have cap: "cache (destroy_action r (destroy_app i s)) (i, h) = None"
    using assms(3) hooks(1) by (simp add: destroy_action_cache)
  consider "s' = destroy_action r s" | "s' = destroy_app i s"
    | "s' = destroy_app i (destroy_action r s)" | "s' = destroy_action r (destroy_app i s)"
    using assms(5) by blast
  then have all: "well_formed s' \<and> next_ref s' = next_ref s \<and> cache s' (i, h) = None"
  proof cases
    case 1
    then show ?thesis using wa ca by simp
  next
    case 2
    then show ?thesis using wp cp by simp
  next
    case 3
    then show ?thesis using wpa cpa by simp
  next
    case 4
    then show ?thesis using wap cap by simp
  qed
  then have w': "well_formed s'" and n': "next_ref s' = next_ref s" and c': "cache s' (i, h) = None"
    by simp_all
  obtain sA' where r': "resolve_app app s' = (i, sA')"
    using assms(7) by (cases "resolve_app app s'") auto
  have m: "\<not> True \<or> cache s' (i, item_hash mi) = None" using c' assms(6) by simp
  have new: "fst (QMenuItemAction_new mi app parent True s') = next_ref s'"
    by (simp add: QMenuItemAction_new_miss[OF r' m])
  have lt: "r < next_ref s" by (rule wfD_cache_lt[OF assms(1,2)])
  have fresh: "objects s' (next_ref s') = None"
  proof (cases "objects s' (next_ref s')")
    case None
    then show ?thesis .
  next
    case (Some b)
    then have "next_ref s' < next_ref s'" by (rule wfD_obj_lt[OF w'])
    then show ?thesis by simp
  qed
  have con: "\<forall>r'. fst (QMenuItemAction mi app parent True s') = Inr r' \<longrightarrow>
            r' = next_ref s' \<and> cache (snd (QMenuItemAction mi app parent True s')) (i, h) = Some r'"
  proof (cases "refresh_result (command mi)")
    case (Inl e)
    then show ?thesis by (simp add: QMenuItemAction_miss[OF r' m])
  next
    case (Inr u)
    then show ?thesis using assms(6) by (simp add: QMenuItemAction_miss[OF r' m])
  qed
  have ne: "next_ref s' \<noteq> r" using lt n' by simp
  show ?thesis using c' new ne fresh con by (intro conjI)
qed

text \<open>
  Claim C4 as stated fails for a cached instance whose \<^verbatim>\<open>__init__\<close> raised. The toggle
  provider of \<open>demo_failing\<close> raises inside \<^verbatim>\<open>_refresh\<close>, before \<^verbatim>\<open>__init__\<close> reaches the
  two \<^verbatim>\<open>connect\<close> calls: the constructor raises and leaves instance \<open>0\<close> in the cache with
  no hook registered. Destroying the instance, its application, or both in either order
  leaves the entry where it is, and \<^verbatim>\<open>__new__\<close> hands the destroyed instance to the next
  construction with the same key.
\<close>

theorem failed_instance_entry_survives:
  "fst (QMenuItemAction demo_failing (AppObj 0) None True initial_state) = Inl (Failure ''boom'') \<and>
   cache (snd (QMenuItemAction demo_failing (AppObj 0) None True initial_state)) (0, 7) = Some 0 \<and>
   cache (destroy_action 0
            (snd (QMenuItemAction demo_failing (AppObj 0) None True initial_state))) (0, 7) = Some 0 \<and>
   cache (destroy_app 0
            (snd (QMenuItemAction demo_failing (AppObj 0) None True initial_state))) (0, 7) = Some 0 \<and>
   cache (destroy_app 0 (destroy_action 0
            (snd (QMenuItemAction demo_failing (AppObj 0) None True initial_state)))) (0, 7) = Some 0 \<and>
   cache (destroy_action 0 (destroy_app 0
            (snd (QMenuItemAction demo_failing (AppObj 0) None True initial_state)))) (0, 7) = Some 0 \<and>
   objects (destroy_action 0
            (snd (QMenuItemAction demo_failing (AppObj 0) None True initial_state))) 0 = None \<and>
   fst (QMenuItemAction_new demo_failing (AppObj 0) None True
          (destroy_action 0
            (snd (QMenuItemAction demo_failing (AppObj 0) None True initial_state)))) = 0"
proof -
  let ?a1 = "rule_final 0 (Some ''Ctrl+K'') (command demo_failing) None False blank"
  let ?S1 = "initial_state\<lparr>objects := [0 \<mapsto> ?a1], next_ref := Suc 0, cache := [(0, 7) \<mapsto> 0],
                log := [Inject 0, GetCurrent]\<rparr>"
  have r: "refresh_result (command demo_failing) = Inl (Failure ''boom'')"
    "refresh_log (command demo_failing) 0 = [Inject 0, GetCurrent]"
    "item_hash demo_failing = 7" "rule_id (command demo_failing) = ''cmd''"
    by (simp_all add: demo_failing_def demo_defs)
  have 1: "QMenuItemAction demo_failing (AppObj 0) None True initial_state = (Inl (Failure ''boom''), ?S1)"
    by (simp add: QMenuItemAction_miss[where i = 0 and sA = initial_state] r initial_state_def
        demo_app_def)
  have o: "objects ?S1 0 = Some ?a1" by simp
  have d: "destroyed_slots ?a1 = []" by (simp add: blank_def)
  have p: "app_destroyed ?S1 0 = []" by (simp add: initial_state_def)
  have c: "cache ?S1 (0, 7) = Some 0" by simp
  have ca: "cache (destroy_action 0 ?S1) k = cache ?S1 k" for k
    using o d by (simp add: destroy_action_cache)
  have cp: "cache (destroy_app 0 ?S1) k = cache ?S1 k" for k
    using p by simp
  have cpa: "cache (destroy_app 0 (destroy_action 0 ?S1)) k = cache ?S1 k" for k
    using p ca by simp
  have cap: "cache (destroy_action 0 (destroy_app 0 ?S1)) k = cache ?S1 k" for k
    using o d cp by (simp add: destroy_action_cache)
  have g: "objects (destroy_action 0 ?S1) 0 = None" by simp
  have n: "QMenuItemAction_new demo_failing (AppObj 0) None True (destroy_action 0 ?S1) =
      (0, destroy_action 0 ?S1)"
    by (rule QMenuItemAction_new_hit) (simp_all add: r ca)
  show ?thesis
    unfolding 1 fst_conv snd_conv n ca cp cpa cap using c g by simp
qed

text \<open>
  Claim C4, amended. From a well-formed state, let a construction with caching enabled return
  the instance \<open>r\<close> normally, for the application \<open>i\<close>: \<^verbatim>\<open>__init__\<close> has completed on
  \<open>r\<close>, and the cache holds \<open>r\<close> under the key of the construction. After the instance is
  destroyed, or the application is destroyed, or both in either order (the second hook then
  finds the key already absent, which is not an error), the cache has no entry for the key.
  A construction with caching enabled and the same key that follows allocates the next
  reference, which is not \<open>r\<close> and was not in the heap: when the constructor returns, it
  returns that new instance, and the cache holds it under the key.
\<close>

theorem destroyed_instance_entry_removed:
  assumes "well_formed s"
    and "QMenuItemAction mi app parent True s = (Inr r, s1)" and "fst (resolve_app app s) = i"
    and "s' \<in> {destroy_action r s1, destroy_app i s1,
                destroy_app i (destroy_action r s1), destroy_action r (destroy_app i s1)}"
    and "item_hash mi' = item_hash mi" and "fst (resolve_app app' s') = i"
  shows "cache s1 (i, item_hash mi) = Some r \<and> cache s' (i, item_hash mi) = None \<and>
         fst (QMenuItemAction_new mi' app' parent' True s') = next_ref s' \<and>
         next_ref s' \<noteq> r \<and> objects s' (next_ref s') = None \<and>
         (\<forall>r'. fst (QMenuItemAction mi' app' parent' True s') = Inr r' \<longrightarrow>
            r' = next_ref s' \<and>
            cache (snd (QMenuItemAction mi' app' parent' True s')) (i, item_hash mi) = Some r')"
proof -
  obtain sA where ra: "resolve_app app s = (i, sA)"
    using assms(3) by (cases "resolve_app app s") auto
  have "well_formed (snd (QMenuItemAction mi app parent True s))"
    by (rule wf_QMenuItemAction[OF assms(1)])
  then have w1: "well_formed s1" using assms(2) by simp
  obtain a1 where c: "cache s1 (i, item_hash mi) = Some r" and o: "objects s1 r = Some a1"
    and i: "attr_initialized a1 = Some True"
    using construct_success_cached[OF assms(1) ra assms(2)] by blast
  show ?thesis
    using c initialised_entry_removed[OF w1 c o i assms(4,5,6), of parent'] by simp
qed

theorem destroyed_instance_entry_removed_witness:
  "fst (QMenuItemAction demo_hidden (AppObj 0) None True initial_state) = Inr 0 \<and>
   cache (snd (QMenuItemAction demo_hidden (AppObj 0) None True initial_state)) (0, 7) = Some 0 \<and>
   cache (destroy_action 0
            (snd (QMenuItemAction demo_hidden (AppObj 0) None True initial_state))) (0, 7) = None \<and>
   cache (destroy_app 0
            (snd (QMenuItemAction demo_hidden (AppObj 0) None True initial_state))) (0, 7) = None \<and>
   fst (QMenuItemAction_new demo_failing (AppObj 0) None True
          (destroy_action 0
            (snd (QMenuItemAction demo_hidden (AppObj 0) None True initial_state)))) = 1 \<and>
   fst (QMenuItemAction_new demo_failing (AppObj 0) None True
          (destroy_app 0
            (snd (QMenuItemAction demo_hidden (AppObj 0) None True initial_state)))) = 1"
proof -
  let ?S1 = "snd (QMenuItemAction demo_hidden (AppObj 0) None True initial_state)"
  have f1: "fst (QMenuItemAction demo_hidden (AppObj 0) None True initial_state) = Inr 0"
    by (simp add: QMenuItemAction_miss[where i = 0 and sA = initial_state] demo_hidden_def demo_defs)
  have e1: "QMenuItemAction demo_hidden (AppObj 0) None True initial_state = (Inr 0, ?S1)"
    using f1 by (simp add: prod_eq_iff)
  have n1: "next_ref ?S1 = 1"
    by (simp add: QMenuItemAction_miss[where i = 0 and sA = initial_state] demo_hidden_def demo_defs)
  have h: "item_hash demo_hidden = 7" "item_hash demo_failing = item_hash demo_hidden"
    by (simp_all add: demo_hidden_def demo_failing_def demo_item_def)
  have ri: "fst (resolve_app (AppObj 0) initial_state) = 0" by simp
  have ma: "destroy_action 0 ?S1 \<in> {destroy_action 0 ?S1, destroy_app 0 ?S1,
                destroy_app 0 (destroy_action 0 ?S1), destroy_action 0 (destroy_app 0 ?S1)}"
    by simp
  have mp: "destroy_app 0 ?S1 \<in> {destroy_action 0 ?S1, destroy_app 0 ?S1,
                destroy_app 0 (destroy_action 0 ?S1), destroy_action 0 (destroy_app 0 ?S1)}"
    by simp
  have ra: "fst (resolve_app (AppObj 0) (destroy_action 0 ?S1)) = 0"
    and rp: "fst (resolve_app (AppObj 0) (destroy_app 0 ?S1)) = 0"
    by simp_all
  note ta = destroyed_instance_entry_removed[OF wf_initial_state e1 ri ma h(2) ra, of None]
  note tp = destroyed_instance_entry_removed[OF wf_initial_state e1 ri mp h(2) rp, of None]
  have a1: "cache ?S1 (0, 7) = Some 0" and a2: "cache (destroy_action 0 ?S1) (0, 7) = None"
    and a3: "fst (QMenuItemAction_new demo_failing (AppObj 0) None True (destroy_action 0 ?S1)) =
             next_ref (destroy_action 0 ?S1)"
    using ta h(1) by simp_all
  have p2: "cache (destroy_app 0 ?S1) (0, 7) = None"
    and p3: "fst (QMenuItemAction_new demo_failing (AppObj 0) None True (destroy_app 0 ?S1)) =
             next_ref (destroy_app 0 ?S1)"
    using tp h(1) by simp_all
  show ?thesis
    using f1 a1 a2 a3 p2 p3 n1 by (intro conjI) simp_all
qed

lemma wf_empty: "cache s = Map.empty \<Longrightarrow> objects s = Map.empty \<Longrightarrow> well_formed s"
  by (simp add: well_formed_def)

lemma wf_fresh_object:
  assumes "well_formed s" "resolve_app app s = (i, sA)" "attr_initialized a \<noteq> Some True"
  shows "well_formed ((put (next_ref s) a (sA\<lparr>next_ref := Suc (next_ref s)\<rparr>))\<lparr>log := l\<rparr>)"
proof -
  have fr: "objects sA = objects s" "cache sA = cache s" "next_ref sA = next_ref s"
    "app_destroyed sA = app_destroyed s"
    using resolve_app_frame[OF assms(2)] by simp_all
  have wA: "well_formed sA" using assms(1) wf_resolved[OF assms(2)] by simp
  have "well_formed (sA\<lparr>objects := (objects sA)(next_ref sA \<mapsto> a), next_ref := Suc (next_ref sA),
           cache := (if False then (cache sA)(undefined \<mapsto> next_ref sA) else cache sA)\<rparr>)"
    by (rule wf_alloc[OF wA assms(3)]) simp
  then show ?thesis by (rule wf_transfer) (simp_all add: fr)
qed

lemma wf_QCommandRuleAction:
  assumes "well_formed s"
  shows "well_formed (snd (QCommandRuleAction cr app parent ust s))"
proof -
  obtain i sA where r: "resolve_app app s = (i, sA)" by (cases "resolve_app app s") auto
  show ?thesis
    using wf_fresh_object[OF assms r, of "rule_final i (keybindings (apps sA i) (rule_id cr)) cr parent ust blank"]
    by (simp add: QCommandRuleAction_closed r)
qed

lemma wf_QCommandAction:
  assumes "well_formed s"
  shows "well_formed (snd (QCommandAction cid app parent s))"
proof -
  obtain i sA where r: "resolve_app app s = (i, sA)" by (cases "resolve_app app s") auto
  have "well_formed ((put (next_ref s) (command_object i (keybindings (apps sA i) cid) cid parent blank)
           (sA\<lparr>next_ref := Suc (next_ref s)\<rparr>))\<lparr>log := log s\<rparr>)"
    by (rule wf_fresh_object[OF assms r]) simp
  then have "well_formed (put (next_ref s) (command_object i (keybindings (apps sA i) cid) cid parent blank)
           (sA\<lparr>next_ref := Suc (next_ref s)\<rparr>))"
    by simp
  then show ?thesis by (simp add: QCommandAction_closed r)
qed

lemma wf_put_display:
  assumes "well_formed s" "objects s r = Some a"
  shows "well_formed (put r (a\<lparr>explicit_enabled := ex, enabled := en, checked := ch, visible := vis\<rparr>) s)"
proof (rule wf_put[OF assms])
  let ?a' = "a\<lparr>explicit_enabled := ex, enabled := en, checked := ch, visible := vis\<rparr>"
  assume i: "attr_initialized ?a' = Some True"
  then have i': "attr_initialized a = Some True" by simp
  have "\<forall>k. cache s k = Some r \<longrightarrow>
          k \<in> set (destroyed_slots a) \<and> k \<in> set (app_destroyed s (fst k))"
    using wfD_hooks[OF assms(1) _ assms(2) i'] by blast
  then show "constructed ?a' \<and> attr_cmd_rule ?a' \<noteq> None \<and> attr_menu_item ?a' \<noteq> None \<and>
     (\<forall>k. cache s k = Some r \<longrightarrow>
        k \<in> set (destroyed_slots ?a') \<and> k \<in> set (app_destroyed s (fst k)))"
    using wfD_init[OF assms i'] by simp
qed

lemma wf_menu_update:
  assumes "well_formed s"
  shows "well_formed (snd (QMenuItemAction_update_from_context self ctx s))"
proof (cases "objects s self")
  case None
  then show ?thesis using assms by (simp add: menu_update_missing)
next
  case (Some a)
  obtain ex en ch vis where "snd (QMenuItemAction_update_from_context self ctx s) =
      put self (a\<lparr>explicit_enabled := ex, enabled := en, checked := ch, visible := vis\<rparr>) s"
    using menu_update_frame[OF Some] by blast
  then show ?thesis using wf_put_display[OF assms Some] by simp
qed

lemma wf_rule_update:
  assumes "well_formed s"
  shows "well_formed (snd (QCommandRuleAction_update_from_context self ctx s))"
proof (cases "objects s self")
  case None
  then show ?thesis using assms by (simp add: rule_update_missing)
next
  case (Some a)
  obtain ex en ch where "snd (QCommandRuleAction_update_from_context self ctx s) =
      put self (a\<lparr>explicit_enabled := ex, enabled := en, checked := ch\<rparr>) s"
    using rule_update_frame[OF Some] by blast
  moreover have "a\<lparr>explicit_enabled := ex, enabled := en, checked := ch\<rparr> =
      a\<lparr>explicit_enabled := ex, enabled := en, checked := ch, visible := visible a\<rparr>"
    by simp
  ultimately show ?thesis
    using wf_put_display[OF assms Some, where ex = ex and en = en and ch = ch and vis = "visible a"]
    by simp
qed

lemma on_triggered_state: "\<exists>l. snd (on_triggered self chk s) = s\<lparr>log := l\<rparr>"
proof -
  have same: "s\<lparr>log := log s\<rparr> = s" by simp
  show ?thesis
  proof (cases "get_attr self attr_app s")
    case (Inl e)
    then have "snd (on_triggered self chk s) = s"
      by (simp add: on_triggered_def bind_def read_def)
    then show ?thesis using same by metis
  next
    case i: (Inr i)
    show ?thesis
    proof (cases "get_attr self attr_command_id s")
      case (Inl e)
      then have "snd (on_triggered self chk s) = s"
        using i by (simp add: on_triggered_def bind_def read_def)
      then show ?thesis using same by metis
    next
      case (Inr c)
      then show ?thesis
        using i
        by (cases "commands (apps s i) c")
           (auto simp: on_triggered_def bind_def read_def execute_command_def result_def)
    qed
  qed
qed

lemma emit_triggered_state: "\<exists>l. snd (emit_triggered n self chk s) = s\<lparr>log := l\<rparr>"
proof (induction n arbitrary: s)
  case 0
  have "s\<lparr>log := log s\<rparr> = s" by simp
  then show ?case by (metis emit_triggered.simps(1) snd_conv)
next
  case (Suc n)
  obtain res l where o: "on_triggered self chk s = (res, s\<lparr>log := l\<rparr>)"
    using on_triggered_state[of self chk s] by (metis prod.collapse)
  show ?case
  proof (cases res)
    case (Inl e)
    then show ?thesis using o by (auto simp: seq_def)
  next
    case (Inr u)
    obtain l' where "snd (emit_triggered n self chk (s\<lparr>log := l\<rparr>)) = s\<lparr>log := l, log := l'\<rparr>"
      using Suc.IH[of "s\<lparr>log := l\<rparr>"] by blast
    then show ?thesis using o Inr by (auto simp: seq_def)
  qed
qed

lemma wf_activate:
  assumes "well_formed s"
  shows "well_formed (snd (activate self chk s))"
proof (cases "objects s self")
  case None
  then show ?thesis using assms by (simp add: activate_def)
next
  case (Some a)
  obtain l where "snd (emit_triggered (triggered_slots a) self chk s) = s\<lparr>log := l\<rparr>"
    using emit_triggered_state by blast
  then show ?thesis using assms Some by (simp add: activate_def)
qed

lemma wf_registration: "well_formed (s\<lparr>apps := f\<rparr>) = well_formed s"
  by (rule wf_cong) simp_all

text \<open>Every reachable state is well-formed.\<close>

lemma reachable_well_formed: "reachable s \<Longrightarrow> well_formed s"
proof (induction rule: reachable.induct)
  case (start s)
  then show ?case by (rule wf_empty)
next
  case (menu_action s mi app parent cf)
  then show ?case by (simp add: wf_QMenuItemAction)
next
  case (rule_action s cr app parent ust)
  then show ?case by (simp add: wf_QCommandRuleAction)
next
  case (command_action s cid app parent)
  then show ?case by (simp add: wf_QCommandAction)
next
  case (menu_update s self ctx)
  then show ?case by (simp add: wf_menu_update)
next
  case (rule_update s self ctx)
  then show ?case by (simp add: wf_rule_update)
next
  case (activation s self chk)
  then show ?case by (simp add: wf_activate)
next
  case (action_destroyed s self)
  then show ?case by (simp add: wf_destroy_action)
next
  case (app_destroyed s i)
  then show ?case by (simp add: wf_destroy_app)
next
  case (registration s f)
  then show ?case by (simp add: wf_registration)
qed

section \<open>Constant visibility at construction\<close>

text \<open>
  Menu items that are never to be shown, in general: for a new instance of a menu item
  whose \<^verbatim>\<open>when\<close> expression is false in the empty context and whose command has no
  enablement expression, the construction asks for an enabled action, and the action is
  hidden exactly when the evaluation of the toggle, if there is one to evaluate, does not
  fail. The toolkit disables the action it hides, so the action is enabled exactly when it
  is still visible.
\<close>

lemma constant_when_applied_unless_toggle_fails:
  assumes "resolve_app app s = (i, sA)" and "\<not> cf \<or> cache s (i, item_hash mi) = None"
    and "enablement (command mi) = None" and "item_when mi = Some w"
    and "eval w Map.empty = Inr False"
    and "QMenuItemAction mi app parent cf s = (Inr r, s1)"
  shows "\<exists>a. objects s1 r = Some a \<and> explicit_enabled a \<and> enabled a = visible a \<and>
           visible a = (\<exists>e. toggled_value (command mi) Map.empty = Some (Inl e))"
proof -
  let ?m = "menu_object i (keybindings (apps sA i) (rule_id (command mi))) mi parent blank"
  let ?a = "menu_refreshed mi (command mi) Map.empty ?m"
  have rr: "refresh_result (command mi) = Inr ()"
    using assms(6) by (cases "refresh_result (command mi)")
      (simp_all add: QMenuItemAction_miss[OF assms(1,2)])
  have r: "r = next_ref s"
    using assms(6) by (simp add: QMenuItemAction_miss[OF assms(1,2)] rr)
  have "snd (QMenuItemAction mi app parent cf s) = s1" using assms(6) by simp
  then have "objects s1 (next_ref s) = Some ?a"
    by (auto simp: QMenuItemAction_miss[OF assms(1,2)] rr)
  then have o: "objects s1 r = Some ?a" using r by simp
  have en: "enablement_value (command mi) Map.empty = Inr True"
    using assms(3) by (simp add: enablement_value_def)
  have wv: "when_value mi Map.empty = Inr False"
    using assms(4,5) by (simp add: when_value_def)
  have b: "visible ?m" "enabled ?m" "explicit_enabled ?m"
    by (simp_all add: menu_object_def rule_final_def rule_object_def presented_def
        command_object_def blank_def split: option.splits sum.splits)
  have "explicit_enabled ?a \<and> enabled ?a = visible ?a \<and>
      visible ?a = (\<exists>e. toggled_value (command mi) Map.empty = Some (Inl e))"
  proof (cases "toggled_value (command mi) Map.empty")
    case None
    then show ?thesis
      using b by (simp add: menu_refreshed_def rule_outcome_def rule_refreshed_def en wv)
  next
    case (Some v)
    then show ?thesis
      using b by (cases v) (simp_all add: menu_refreshed_def rule_outcome_def rule_refreshed_def en wv)
  qed
  then show ?thesis using o by blast
qed

end
